theory Spec2Isabelle
  imports Complex_Main
begin

section \<open>Python values used by the notebook\<close>

text \<open>
  The notebook \<^verbatim>\<open>RAG_model.ipynb\<close> defines three functions that carry the chunking
  logic: \<^verbatim>\<open>func\<close> (the window combiner), \<^verbatim>\<open>semantic_chunking\<close> (the sequential
  chunker) and \<^verbatim>\<open>semantic_cluster_chunking\<close> (the anchor chunker). They are embedded
  below. The exceptions that these functions can raise are values of \<open>error\<close>.
\<close>

datatype error = IndexError | ValueError

text \<open>
  A sentence is the dictionary \<^verbatim>\<open>{'sentences': j, 'index': i}\<close> built in the notebook.
\<close>

record sentence =
  sentences :: string
  index :: nat

text \<open>\<^verbatim>\<open>range(a, b)\<close> over Python integers.\<close>

definition py_range :: "int \<Rightarrow> int \<Rightarrow> int list" where
  "py_range a b = [a..b - 1]"

text \<open>\<^verbatim>\<open>xs[i]\<close>: a negative index counts from the end, anything else out of range raises.\<close>

definition py_index :: "'a list \<Rightarrow> int \<Rightarrow> error + 'a" where
  "py_index xs i =
     (if 0 \<le> i \<and> i < int (length xs) then Inr (xs ! nat i)
      else if i < 0 \<and> - int (length xs) \<le> i then Inr (xs ! nat (int (length xs) + i))
      else Inl IndexError)"

text \<open>
  \<^verbatim>\<open>str.split()\<close> without arguments: the maximal runs of non-whitespace characters.
  The whitespace characters are those of Python below code point 256.
\<close>

definition is_space :: "char \<Rightarrow> bool" where
  "is_space c = ((of_char c :: nat) \<in> {9, 10, 11, 12, 13, 28, 29, 30, 31, 32, 133, 160})"

fun split_from :: "string \<Rightarrow> string \<Rightarrow> string list" where
  "split_from w [] = (if w = [] then [] else [w])"
| "split_from w (c # cs) =
     (if is_space c then (if w = [] then split_from [] cs else w # split_from [] cs)
      else split_from (w @ [c]) cs)"

definition split :: "string \<Rightarrow> string list" where
  "split s = split_from [] s"

text \<open>\<^verbatim>\<open>len(s.split())\<close>, the word count of a window.\<close>

definition split_len :: "string \<Rightarrow> nat" where
  "split_len s = length (split s)"

text \<open>\<^verbatim>\<open>" ".join(xs)\<close>.\<close>

fun join :: "string list \<Rightarrow> string" where
  "join [] = []"
| "join [x] = x"
| "join (x # y # r) = x @ '' '' @ join (y # r)"


section \<open>The window combiner \<^verbatim>\<open>func\<close>\<close>

text \<open>
  \<^verbatim>\<open>
  def func(sentences, buffer_size):
    combined=[]
    for index,value in enumerate(sentences):
      val=''
      for o1 in range(index-min(index,buffer_size),index+1):
        val=val+sentences[o1]['sentences']
      k=val
      val=''
      for o2 in range(index+1,min(len(sentences),buffer_size+1+index)):
        val=val+sentences[o2]['sentences']
      k=k+val
      combined.append(k)
    return combined
  \<close>
  The two inner loops are \<open>concat_sentences\<close>, started with the empty string; the outer
  loop is \<open>func_loop\<close>, which runs over the indices that \<^verbatim>\<open>enumerate\<close> produces
  (the loop variable \<^verbatim>\<open>index\<close> is \<open>ix\<close> here).
\<close>

fun concat_sentences :: "sentence list \<Rightarrow> string \<Rightarrow> int list \<Rightarrow> error + string" where
  "concat_sentences ss val [] = Inr val"
| "concat_sentences ss val (j # js) =
     (case py_index ss j of
        Inl e \<Rightarrow> Inl e
      | Inr r \<Rightarrow> concat_sentences ss (val @ sentences r) js)"

fun func_loop :: "sentence list \<Rightarrow> int \<Rightarrow> int list \<Rightarrow> string list \<Rightarrow> error + string list" where
  "func_loop ss buffer_size [] combined = Inr combined"
| "func_loop ss buffer_size (ix # rest) combined =
     (case concat_sentences ss [] (py_range (ix - min ix buffer_size) (ix + 1)) of
        Inl e \<Rightarrow> Inl e
      | Inr k \<Rightarrow>
          (case concat_sentences ss []
                  (py_range (ix + 1) (min (int (length ss)) (buffer_size + 1 + ix))) of
             Inl e \<Rightarrow> Inl e
           | Inr val \<Rightarrow> func_loop ss buffer_size rest (combined @ [k @ val])))"

definition func :: "sentence list \<Rightarrow> int \<Rightarrow> error + string list" where
  "func ss buffer_size = func_loop ss buffer_size (py_range 0 (int (length ss))) []"

text \<open>
  The window of the specification, written from its words: the texts at the positions
  \<open>[max(0, i - bufferSize), i]\<close>, then those at \<open>(i, min(len - 1, i + bufferSize)]\<close>,
  with no separator anywhere.
\<close>

definition left_span :: "nat \<Rightarrow> nat \<Rightarrow> nat list" where
  "left_span b i = [i - b..<Suc i]"

definition right_span :: "nat \<Rightarrow> nat \<Rightarrow> nat \<Rightarrow> nat list" where
  "right_span n b i = [Suc i..<Suc (min (n - 1) (i + b))]"

definition window_spec :: "sentence list \<Rightarrow> nat \<Rightarrow> nat \<Rightarrow> string" where
  "window_spec ss b i =
     concat (map (\<lambda>j. sentences (ss ! j)) (left_span b i)) @
     concat (map (\<lambda>j. sentences (ss ! j)) (right_span (length ss) b i))"

definition combine_spec :: "sentence list \<Rightarrow> nat \<Rightarrow> string list" where
  "combine_spec ss b = map (window_spec ss b) [0..<length ss]"


section \<open>The sequential chunker \<^verbatim>\<open>semantic_chunking\<close>\<close>

text \<open>
  \<^verbatim>\<open>
  def semantic_chunking(comb, threshold=0.75, chunk_limit=None):
      if chunk_limit is None:
          chunk_limit = 512
      embeddings = model.encode(comb)
      chunks = []
      current_chunk = [comb[0]]
      current_len = len(comb[0].split())
      for i in range(1, len(comb)):
          sim = cosine_similarity([embeddings[i]], [embeddings[i - 1]])[0][0]
          next_len = len(comb[i].split())
          if sim > threshold and current_len + next_len <= chunk_limit:
              current_chunk.append(comb[i])
              current_len += next_len
          else:
              chunks.append(" ".join(current_chunk))
              current_chunk = [comb[i]]
              current_len = next_len
      chunks.append(" ".join(current_chunk))
      return chunks
  \<close>
  The embedding model and the similarity are library calls. They are parameters of the
  model: \<open>encode\<close> gives the embedding of one text, so that \<^verbatim>\<open>model.encode(comb)\<close> is
  \<open>map encode comb\<close> (one row per window, in order), and \<open>cosine_similarity\<close> gives the
  similarity of two embeddings, a real number. The body of the loop is \<open>seq_step\<close>, on
  the state \<open>(chunks, current_chunk, current_len)\<close>; \<^verbatim>\<open>comb[0]\<close> raises on an empty list.
\<close>

definition seq_step ::
  "('e \<Rightarrow> 'e \<Rightarrow> real) \<Rightarrow> string list \<Rightarrow> 'e list \<Rightarrow> real \<Rightarrow> int \<Rightarrow>
   string list \<times> string list \<times> nat \<Rightarrow> nat \<Rightarrow> string list \<times> string list \<times> nat" where
  "seq_step cosine_similarity comb embeddings threshold chunk_limit st i =
     (case st of (chunks, current_chunk, current_len) \<Rightarrow>
        let sim = cosine_similarity (embeddings ! i) (embeddings ! (i - 1));
            next_len = split_len (comb ! i)
        in if sim > threshold \<and> int current_len + int next_len \<le> chunk_limit
           then (chunks, current_chunk @ [comb ! i], current_len + next_len)
           else (chunks @ [join current_chunk], [comb ! i], next_len))"

definition semantic_chunking ::
  "(string \<Rightarrow> 'e) \<Rightarrow> ('e \<Rightarrow> 'e \<Rightarrow> real) \<Rightarrow> string list \<Rightarrow> real \<Rightarrow> int option \<Rightarrow>
   error + string list" where
  "semantic_chunking encode cosine_similarity comb threshold chunk_limit =
     (let chunk_limit = (case chunk_limit of None \<Rightarrow> 512 | Some l \<Rightarrow> l);
          embeddings = map encode comb
      in case comb of
           [] \<Rightarrow> Inl IndexError
         | c0 # _ \<Rightarrow>
             (case foldl (seq_step cosine_similarity comb embeddings threshold chunk_limit)
                     ([], [c0], split_len c0) [1..<length comb] of
                (chunks, current_chunk, current_len) \<Rightarrow> Inr (chunks @ [join current_chunk])))"

text \<open>
  The source keeps the texts of the windows only. The member indices of a chunk are made
  visible by the same loop run on indices: \<open>current_chunk\<close> holds \<open>i\<close> where the source
  holds \<^verbatim>\<open>comb[i]\<close>, and a chunk is emitted as its list of indices. \<open>chunk_text\<close> turns
  such a list back into the emitted string.
\<close>

definition seq_step_members ::
  "('e \<Rightarrow> 'e \<Rightarrow> real) \<Rightarrow> string list \<Rightarrow> 'e list \<Rightarrow> real \<Rightarrow> int \<Rightarrow>
   nat list list \<times> nat list \<times> nat \<Rightarrow> nat \<Rightarrow> nat list list \<times> nat list \<times> nat" where
  "seq_step_members cosine_similarity comb embeddings threshold chunk_limit st i =
     (case st of (chunks, current_chunk, current_len) \<Rightarrow>
        let sim = cosine_similarity (embeddings ! i) (embeddings ! (i - 1));
            next_len = split_len (comb ! i)
        in if sim > threshold \<and> int current_len + int next_len \<le> chunk_limit
           then (chunks, current_chunk @ [i], current_len + next_len)
           else (chunks @ [current_chunk], [i], next_len))"

definition semantic_chunking_members ::
  "(string \<Rightarrow> 'e) \<Rightarrow> ('e \<Rightarrow> 'e \<Rightarrow> real) \<Rightarrow> string list \<Rightarrow> real \<Rightarrow> int option \<Rightarrow>
   error + nat list list" where
  "semantic_chunking_members encode cosine_similarity comb threshold chunk_limit =
     (let chunk_limit = (case chunk_limit of None \<Rightarrow> 512 | Some l \<Rightarrow> l);
          embeddings = map encode comb
      in case comb of
           [] \<Rightarrow> Inl IndexError
         | c0 # _ \<Rightarrow>
             (case foldl (seq_step_members cosine_similarity comb embeddings threshold chunk_limit)
                     ([], [0], split_len c0) [1..<length comb] of
                (chunks, current_chunk, current_len) \<Rightarrow> Inr (chunks @ [current_chunk])))"

definition chunk_text :: "string list \<Rightarrow> nat list \<Rightarrow> string" where
  "chunk_text comb members = join (map (\<lambda>i. comb ! i) members)"

text \<open>The accumulated word count of a list of windows, given by their indices.\<close>

definition words_of :: "string list \<Rightarrow> nat list \<Rightarrow> nat" where
  "words_of comb members = sum_list (map (\<lambda>i. split_len (comb ! i)) members)"

text \<open>
  The test of the merge rule for window \<open>i\<close> against the windows \<open>current\<close> of the chunk
  in progress: the similarity of \<open>i\<close> to \<open>i - 1\<close> is above the threshold and the word
  budget holds.
\<close>

definition merges ::
  "(string \<Rightarrow> 'e) \<Rightarrow> ('e \<Rightarrow> 'e \<Rightarrow> real) \<Rightarrow> string list \<Rightarrow> real \<Rightarrow> int \<Rightarrow> nat list \<Rightarrow> nat \<Rightarrow> bool" where
  "merges encode cosine_similarity comb threshold limit current i =
     (cosine_similarity (encode (comb ! i)) (encode (comb ! (i - 1))) > threshold \<and>
      int (words_of comb current) + int (split_len (comb ! i)) \<le> limit)"

definition the_limit :: "int option \<Rightarrow> int" where
  "the_limit chunk_limit = (case chunk_limit of None \<Rightarrow> 512 | Some l \<Rightarrow> l)"

text \<open>
  What holds of the state of the loop on indices before window \<open>k\<close> is processed:
  the chunks so far and the chunk in progress list \<open>0, \<dots>, k - 1\<close> in order, no chunk
  is empty, \<open>current_len\<close> is the word count of the chunk in progress, every window
  after the first of a chunk passed the test, and every first window of a later chunk
  failed it against the whole chunk before.
\<close>

definition seq_inv ::
  "(string \<Rightarrow> 'e) \<Rightarrow> ('e \<Rightarrow> 'e \<Rightarrow> real) \<Rightarrow> string list \<Rightarrow> real \<Rightarrow> int \<Rightarrow> nat \<Rightarrow>
   nat list list \<times> nat list \<times> nat \<Rightarrow> bool" where
  "seq_inv encode cosine_similarity comb threshold limit k st =
     (case st of (chunks, current_chunk, current_len) \<Rightarrow>
        concat (chunks @ [current_chunk]) = [0..<k] \<and>
        current_chunk \<noteq> [] \<and> [] \<notin> set chunks \<and>
        current_len = words_of comb current_chunk \<and>
        (\<forall>c \<in> set (chunks @ [current_chunk]). \<forall>j. 0 < j \<and> j < length c \<longrightarrow>
            merges encode cosine_similarity comb threshold limit (take j c) (c ! j)) \<and>
        (\<forall>j. Suc j < length (chunks @ [current_chunk]) \<longrightarrow>
            \<not> merges encode cosine_similarity comb threshold limit
                ((chunks @ [current_chunk]) ! j) (hd ((chunks @ [current_chunk]) ! Suc j))))"


section \<open>The anchor chunker \<^verbatim>\<open>semantic_cluster_chunking\<close>\<close>

text \<open>
  \<^verbatim>\<open>
  def semantic_cluster_chunking(comb, anchor_stride=5, chunk_limit=512):
      embeddings = model.encode(comb)
      chunks = []
      used = set()
      for i in range(0, len(comb), anchor_stride):
          anchor_emb = embeddings[i]
          similarities = cosine_similarity([anchor_emb], embeddings)[0]
          ranked = sorted(enumerate(similarities), key=lambda x: -x[1])
          chunk = []
          word_count = 0
          for idx, sim in ranked:
              if idx in used:
                  continue
              wc = len(comb[idx].split())
              if word_count + wc <= chunk_limit:
                  chunk.append(comb[idx])
                  used.add(idx)
                  word_count += wc
              if word_count >= chunk_limit:
                  break
          if chunk:
              chunks.append(" ".join(chunk))
      return chunks
  \<close>
  \<^verbatim>\<open>range(a, b, s)\<close> raises \<^verbatim>\<open>ValueError\<close> for a zero step. \<^verbatim>\<open>sorted\<close> is stable, as
  \<open>sort_key\<close> is. The inner loop is \<open>scan\<close> on the state \<open>(chunk, used, word_count)\<close>:
  \<^verbatim>\<open>continue\<close> goes on with the rest of the ranking and \<^verbatim>\<open>break\<close> returns the state. The
  body of the outer loop is \<open>anchor_step\<close> on the state \<open>(chunks, used)\<close>.
\<close>

definition py_range_step :: "int \<Rightarrow> int \<Rightarrow> int \<Rightarrow> error + int list" where
  "py_range_step a b s =
     (if s = 0 then Inl ValueError
      else if 0 < s then Inr (map (\<lambda>k. a + int k * s) [0..<nat ((b - a + s - 1) div s)])
      else Inr (map (\<lambda>k. a + int k * s) [0..<nat ((a - b - s - 1) div (- s))]))"

definition ranked_candidates :: "('e \<Rightarrow> 'e \<Rightarrow> real) \<Rightarrow> 'e list \<Rightarrow> 'e \<Rightarrow> (nat \<times> real) list" where
  "ranked_candidates cosine_similarity embeddings anchor_emb =
     (let similarities = map (cosine_similarity anchor_emb) embeddings
      in sort_key (\<lambda>x. - snd x) (enumerate 0 similarities))"

fun scan ::
  "string list \<Rightarrow> int \<Rightarrow> (nat \<times> real) list \<Rightarrow> string list \<times> nat set \<times> nat \<Rightarrow>
   string list \<times> nat set \<times> nat" where
  "scan comb chunk_limit [] st = st"
| "scan comb chunk_limit ((idx, sim) # rest) (chunk, used, word_count) =
     (if idx \<in> used then scan comb chunk_limit rest (chunk, used, word_count)
      else
        let wc = split_len (comb ! idx);
            st = (if int word_count + int wc \<le> chunk_limit
                  then (chunk @ [comb ! idx], insert idx used, word_count + wc)
                  else (chunk, used, word_count))
        in if chunk_limit \<le> int (snd (snd st)) then st
           else scan comb chunk_limit rest st)"

definition anchor_step ::
  "('e \<Rightarrow> 'e \<Rightarrow> real) \<Rightarrow> string list \<Rightarrow> 'e list \<Rightarrow> int \<Rightarrow>
   string list \<times> nat set \<Rightarrow> nat \<Rightarrow> string list \<times> nat set" where
  "anchor_step cosine_similarity comb embeddings chunk_limit st i =
     (case st of (chunks, used) \<Rightarrow>
        let anchor_emb = embeddings ! i;
            ranked = ranked_candidates cosine_similarity embeddings anchor_emb
        in case scan comb chunk_limit ranked ([], used, 0) of
             (chunk, used, word_count) \<Rightarrow>
               (if chunk \<noteq> [] then chunks @ [join chunk] else chunks, used))"

definition semantic_cluster_chunking ::
  "(string \<Rightarrow> 'e) \<Rightarrow> ('e \<Rightarrow> 'e \<Rightarrow> real) \<Rightarrow> string list \<Rightarrow> int \<Rightarrow> int \<Rightarrow> error + string list" where
  "semantic_cluster_chunking encode cosine_similarity comb anchor_stride chunk_limit =
     (let embeddings = map encode comb
      in case py_range_step 0 (int (length comb)) anchor_stride of
           Inl e \<Rightarrow> Inl e
         | Inr anchors \<Rightarrow>
             Inr (fst (foldl (anchor_step cosine_similarity comb embeddings chunk_limit)
                         ([], {}) (map nat anchors))))"

text \<open>The same two loops on member indices, as for the sequential chunker.\<close>

fun scan_members ::
  "string list \<Rightarrow> int \<Rightarrow> (nat \<times> real) list \<Rightarrow> nat list \<times> nat set \<times> nat \<Rightarrow>
   nat list \<times> nat set \<times> nat" where
  "scan_members comb chunk_limit [] st = st"
| "scan_members comb chunk_limit ((idx, sim) # rest) (chunk, used, word_count) =
     (if idx \<in> used then scan_members comb chunk_limit rest (chunk, used, word_count)
      else
        let wc = split_len (comb ! idx);
            st = (if int word_count + int wc \<le> chunk_limit
                  then (chunk @ [idx], insert idx used, word_count + wc)
                  else (chunk, used, word_count))
        in if chunk_limit \<le> int (snd (snd st)) then st
           else scan_members comb chunk_limit rest st)"

definition anchor_step_members ::
  "('e \<Rightarrow> 'e \<Rightarrow> real) \<Rightarrow> string list \<Rightarrow> 'e list \<Rightarrow> int \<Rightarrow>
   nat list list \<times> nat set \<Rightarrow> nat \<Rightarrow> nat list list \<times> nat set" where
  "anchor_step_members cosine_similarity comb embeddings chunk_limit st i =
     (case st of (chunks, used) \<Rightarrow>
        let anchor_emb = embeddings ! i;
            ranked = ranked_candidates cosine_similarity embeddings anchor_emb
        in case scan_members comb chunk_limit ranked ([], used, 0) of
             (chunk, used, word_count) \<Rightarrow>
               (if chunk \<noteq> [] then chunks @ [chunk] else chunks, used))"

definition semantic_cluster_chunking_members ::
  "(string \<Rightarrow> 'e) \<Rightarrow> ('e \<Rightarrow> 'e \<Rightarrow> real) \<Rightarrow> string list \<Rightarrow> int \<Rightarrow> int \<Rightarrow> error + nat list list" where
  "semantic_cluster_chunking_members encode cosine_similarity comb anchor_stride chunk_limit =
     (let embeddings = map encode comb
      in case py_range_step 0 (int (length comb)) anchor_stride of
           Inl e \<Rightarrow> Inl e
         | Inr anchors \<Rightarrow>
             Inr (fst (foldl (anchor_step_members cosine_similarity comb embeddings chunk_limit)
                         ([], {}) (map nat anchors))))"

text \<open>
  The order of the ranking: a candidate comes before another when its similarity is
  higher, or when the similarities are equal and its index is lower.
\<close>

definition ranks_before :: "nat \<times> real \<Rightarrow> nat \<times> real \<Rightarrow> bool" where
  "ranks_before x y = (snd x > snd y \<or> (snd x = snd y \<and> fst x < fst y))"

text \<open>
  The scan of one anchor, written from the words of the specification: the candidates
  are the indices of the ranking that are not yet used, in ranking order; a candidate is
  added if its word count keeps the running total at or below the limit; whether or not
  it was added, the scan stops once the running total has reached the limit.
\<close>

fun scan_spec :: "string list \<Rightarrow> int \<Rightarrow> nat list \<Rightarrow> nat \<Rightarrow> nat list" where
  "scan_spec comb limit [] running = []"
| "scan_spec comb limit (c # candidates) running =
     (let fits = (int running + int (split_len (comb ! c)) \<le> limit);
          running' = (if fits then running + split_len (comb ! c) else running);
          later = (if limit \<le> int running' then [] else scan_spec comb limit candidates running')
      in if fits then c # later else later)"

text \<open>
  The scan of one anchor, told from its result. Given the list \<open>members\<close> of the accepted
  indices, \<open>accepted_words\<close> is the running total after the candidates \<open>visited\<close> have been
  looked at, and \<open>limit_reached\<close> says that this total was at or above the limit after
  one of them, which is when the scan stops.
\<close>

definition accepted_words :: "string list \<Rightarrow> nat list \<Rightarrow> nat list \<Rightarrow> nat" where
  "accepted_words comb members visited = words_of comb (filter (\<lambda>j. j \<in> set members) visited)"

definition limit_reached :: "string list \<Rightarrow> int \<Rightarrow> nat list \<Rightarrow> nat list \<Rightarrow> bool" where
  "limit_reached comb limit members visited =
     list_ex (\<lambda>k. limit \<le> int (accepted_words comb members (take k visited)))
       [1..<Suc (length visited)]"

text \<open>
  What holds of the state \<open>(chunks, used)\<close> of the outer loop on indices: no index is in
  two places of the chunks, every member is marked used, the used indices are window
  indices, no emitted chunk is empty, and every emitted chunk is within the word limit.
\<close>

definition anchor_inv :: "string list \<Rightarrow> int \<Rightarrow> nat list list \<times> nat set \<Rightarrow> bool" where
  "anchor_inv comb limit st =
     (case st of (chunks, used) \<Rightarrow>
        distinct (concat chunks) \<and> set (concat chunks) \<subseteq> used \<and> used \<subseteq> {0..<length comb} \<and>
        [] \<notin> set chunks \<and> (\<forall>c \<in> set chunks. int (words_of comb c) \<le> limit))"


section \<open>The cosine similarity over the reals\<close>

text \<open>
  Modelled from the spec: the cosine similarity of the glossary, the normalized dot product
  of two embedding vectors. The function the notebook calls is the library function
  \<^verbatim>\<open>cosine_similarity\<close> of scikit-learn, which is not part of the repository: it divides
  each vector by its Euclidean norm, a norm of zero counting as 1, and takes the dot
  product. It is stated here in exact real arithmetic. The chunkers take the similarity as
  a parameter; \<open>cosine\<close> is one instance of it.
\<close>

definition dot :: "real list \<Rightarrow> real list \<Rightarrow> real" where
  "dot u v = sum_list (map2 (*) u v)"

definition normalize :: "real list \<Rightarrow> real list" where
  "normalize u = (let n = sqrt (dot u u) in map (\<lambda>x. x / (if n = 0 then 1 else n)) u)"

definition cosine :: "real list \<Rightarrow> real list \<Rightarrow> real" where
  "cosine u v = dot (normalize u) (normalize v)"


section \<open>Inputs of the examples\<close>

text \<open>The sentences of the example of the specification, and some short lists of windows.\<close>

definition abc :: "sentence list" where
  "abc = [\<lparr>sentences = ''A.'', index = 0\<rparr>, \<lparr>sentences = ''B.'', index = 1\<rparr>,
          \<lparr>sentences = ''C.'', index = 2\<rparr>]"

definition comb3 :: "string list" where
  "comb3 = [''a b'', ''c'', ''d'']"

definition twice :: "string list" where
  "twice = [''x'', ''x'']"

definition long_short :: "string list" where
  "long_short = [''x y z'', ''w'']"

definition pqq :: "string list" where
  "pqq = [''p'', ''q'', ''q'']"

text \<open>A similarity for the examples: 1 for equal embeddings, 0 otherwise.\<close>

definition same_text :: "string \<Rightarrow> string \<Rightarrow> real" where
  "same_text u v = (if u = v then 1 else 0)"

text \<open>An embedding for the examples: the text itself, so that equal texts have equal embeddings.\<close>

definition text_embedding :: "string \<Rightarrow> string" where
  "text_embedding s = s"

text \<open>
  A similarity that is above 1 on equal embeddings, as the library's floating-point
  result can be, and 0 otherwise.
\<close>

definition rounded_similarity :: "string \<Rightarrow> string \<Rightarrow> real" where
  "rounded_similarity u v = (if u = v then 1 + 1 / 2 ^ 52 else 0)"

definition pq :: "string list" where
  "pq = [''p'', ''q'']"

definition zero_embedding :: "string \<Rightarrow> real list" where
  "zero_embedding s = [0, 0]"

definition axis_embedding :: "string \<Rightarrow> real list" where
  "axis_embedding s = (if s = ''p'' then [1, 0] else [0, 1])"


section \<open>Properties of the window combiner\<close>

lemma py_range_nat: "0 \<le> a \<Longrightarrow> py_range a b = map int [nat a..<nat b]"
proof (induction "nat (b - a)" arbitrary: b)
  case 0
  then show ?case by (simp add: py_range_def)
next
  case (Suc n)
  then have b: "a \<le> b - 1" "nat b = Suc (nat (b - 1))" "n = nat (b - 1 - a)"
    by linarith+
  have "py_range a b = py_range a (b - 1) @ [b - 1]"
    using b(1) by (simp add: py_range_def upto_rec2)
  also have "py_range a (b - 1) = map int [nat a..<nat (b - 1)]"
    using Suc.hyps(1)[OF b(3)] Suc.prems by simp
  finally show ?case
    using b Suc.prems by simp
qed

lemma concat_sentences_in_range:
  "\<forall>j \<in> set js. j < length ss \<Longrightarrow>
   concat_sentences ss val (map int js) = Inr (val @ concat (map (\<lambda>j. sentences (ss ! j)) js))"
  by (induction js arbitrary: val) (simp_all add: py_index_def)

lemma left_range:
  "0 \<le> b \<Longrightarrow> py_range (int i - min (int i) b) (int i + 1) = map int (left_span (nat b) i)"
proof -
  assume b: "0 \<le> b"
  have "nat (int i - min (int i) b) = i - nat b" "nat (int i + 1) = Suc i"
    using b by linarith+
  then show ?thesis
    by (simp add: py_range_nat left_span_def)
qed

lemma right_range:
  assumes "0 \<le> b" "i < n"
  shows "py_range (int i + 1) (min (int n) (b + 1 + int i)) = map int (right_span n (nat b) i)"
proof -
  have "nat (int i + 1) = Suc i" "nat (min (int n) (b + 1 + int i)) = Suc (min (n - 1) (i + nat b))"
    using assms by linarith+
  then show ?thesis
    by (simp add: py_range_nat right_span_def)
qed

lemma set_left_span: "i < n \<Longrightarrow> \<forall>j \<in> set (left_span b i). j < n"
  by (auto simp: left_span_def)

lemma set_right_span: "i < n \<Longrightarrow> \<forall>j \<in> set (right_span n b i). j < n"
  by (auto simp: right_span_def)

lemma func_loop_windows:
  assumes "0 \<le> b"
  shows "\<forall>i \<in> set is. i < length ss \<Longrightarrow>
         func_loop ss b (map int is) combined = Inr (combined @ map (window_spec ss (nat b)) is)"
proof (induction "is" arbitrary: combined)
  case Nil
  then show ?case by simp
next
  case (Cons i "is")
  then have i: "i < length ss" by simp
  have l: "concat_sentences ss [] (py_range (int i - min (int i) b) (int i + 1)) =
           Inr (concat (map (\<lambda>j. sentences (ss ! j)) (left_span (nat b) i)))"
    using concat_sentences_in_range[OF set_left_span[OF i], of "[]" "nat b"]
    by (simp add: left_range[OF assms])
  have r: "concat_sentences ss [] (py_range (int i + 1) (min (int (length ss)) (b + 1 + int i))) =
           Inr (concat (map (\<lambda>j. sentences (ss ! j)) (right_span (length ss) (nat b) i)))"
    using concat_sentences_in_range[OF set_right_span[OF i], of "[]" "nat b"]
    by (simp add: right_range[OF assms i])
  show ?case
    using Cons by (simp add: l r window_spec_def)
qed

lemma func_refines_spec: "0 \<le> b \<Longrightarrow> func ss b = Inr (combine_spec ss (nat b))"
  using func_loop_windows[of b "[0..<length ss]" ss "[]"]
  by (simp add: func_def combine_spec_def py_range_nat)

lemma window_spec_zero: "i < length ss \<Longrightarrow> window_spec ss 0 i = sentences (ss ! i)"
  by (simp add: window_spec_def left_span_def right_span_def)

lemma combine_spec_zero: "combine_spec ss 0 = map sentences ss"
  by (rule nth_equalityI) (simp_all add: combine_spec_def window_spec_zero)

text \<open>
  C5. For every non-negative \<open>buffer_size\<close> and every list of sentences, \<open>func\<close> returns
  (it raises nothing) a list as long as its input whose \<open>i\<close>-th window is the texts at
  positions \<open>[max(0, i - buffer_size), i]\<close> followed by those at
  \<open>(i, min(len - 1, i + buffer_size)]\<close>, without separators; with \<open>buffer_size = 0\<close>
  every window is its sentence's text; and the sentences \<open>A.\<close>, \<open>B.\<close>, \<open>C.\<close> with
  \<open>buffer_size = 1\<close> give \<open>A.B.\<close>, \<open>A.B.C.\<close>, \<open>B.C.\<close>.
\<close>

theorem func_window_contract:
  assumes "0 \<le> buffer_size"
  shows "(\<exists>combined. func ss buffer_size = Inr combined \<and>
           length combined = length ss \<and>
           (\<forall>i < length ss. combined ! i = window_spec ss (nat buffer_size) i) \<and>
           (buffer_size = 0 \<longrightarrow> combined = map sentences ss)) \<and>
         func abc 1 = Inr [''A.B.'', ''A.B.C.'', ''B.C.'']"
proof
  have "func ss buffer_size = Inr (combine_spec ss (nat buffer_size))"
    using assms by (rule func_refines_spec)
  moreover have "length (combine_spec ss (nat buffer_size)) = length ss"
    by (simp add: combine_spec_def)
  moreover have "\<forall>i < length ss. combine_spec ss (nat buffer_size) ! i = window_spec ss (nat buffer_size) i"
    by (simp add: combine_spec_def)
  moreover have "buffer_size = 0 \<longrightarrow> combine_spec ss (nat buffer_size) = map sentences ss"
    by (simp add: combine_spec_zero)
  ultimately show "\<exists>combined. func ss buffer_size = Inr combined \<and>
           length combined = length ss \<and>
           (\<forall>i < length ss. combined ! i = window_spec ss (nat buffer_size) i) \<and>
           (buffer_size = 0 \<longrightarrow> combined = map sentences ss)"
    by blast
  have "func abc 1 = Inr (combine_spec abc (nat 1))"
    by (rule func_refines_spec) simp
  also have "combine_spec abc (nat 1) = [''A.B.'', ''A.B.C.'', ''B.C.'']"
    by (simp add: combine_spec_def window_spec_def left_span_def right_span_def abc_def upt_rec)
  finally show "func abc 1 = Inr [''A.B.'', ''A.B.C.'', ''B.C.'']" .
qed

theorem func_window_contract_witness:
  "(0::int) \<le> 2 \<and> func abc 2 = Inr [''A.B.C.'', ''A.B.C.'', ''A.B.C.'']"
proof -
  have h: "(0::int) \<le> 2" by simp
  obtain combined where c: "func abc 2 = Inr combined" "length combined = length abc"
    "\<forall>i < length abc. combined ! i = window_spec abc (nat 2) i"
    using func_window_contract[OF h, of abc] by blast
  have "combined = [''A.B.C.'', ''A.B.C.'', ''A.B.C.'']"
  proof (rule nth_equalityI)
    show "length combined = length [''A.B.C.'', ''A.B.C.'', ''A.B.C.'']"
      using c(2) by (simp add: abc_def)
    fix i assume "i < length combined"
    then have "i < 3" using c(2) by (simp add: abc_def)
    then consider "i = 0" | "i = 1" | "i = 2" by linarith
    then show "combined ! i = [''A.B.C.'', ''A.B.C.'', ''A.B.C.''] ! i"
      using c(3)
      by cases (simp_all add: window_spec_def left_span_def right_span_def abc_def upt_rec)
  qed
  then show ?thesis using c(1) by simp
qed


section \<open>Properties of the sequential chunker\<close>

lemma seq_inv_init: "seq_inv enc cs comb th lm 1 ([], [0], split_len (comb ! 0))"
  by (simp add: seq_inv_def words_of_def)

lemma seq_inv_step:
  assumes inv: "seq_inv enc cs comb th lm k st" and k: "0 < k" "k < length comb"
  shows "seq_inv enc cs comb th lm (Suc k) (seq_step_members cs comb (map enc comb) th lm st k)"
proof -
  obtain chunks cur len where st: "st = (chunks, cur, len)"
    by (cases st) auto
  have c: "concat (chunks @ [cur]) = [0..<k]" and ne: "cur \<noteq> []" "[] \<notin> set chunks"
    and len: "len = words_of comb cur"
    and m: "\<forall>c \<in> set (chunks @ [cur]). \<forall>j. 0 < j \<and> j < length c \<longrightarrow>
            merges enc cs comb th lm (take j c) (c ! j)"
    and b: "\<forall>j. Suc j < length (chunks @ [cur]) \<longrightarrow>
            \<not> merges enc cs comb th lm ((chunks @ [cur]) ! j) (hd ((chunks @ [cur]) ! Suc j))"
    using inv unfolding st seq_inv_def by auto
  have emb: "map enc comb ! k = enc (comb ! k)" "map enc comb ! (k - 1) = enc (comb ! (k - 1))"
    using k by simp_all
  show ?thesis
  proof (cases "merges enc cs comb th lm cur k")
    case True
    then have step: "seq_step_members cs comb (map enc comb) th lm st k =
        (chunks, cur @ [k], len + split_len (comb ! k))"
      using k by (simp add: seq_step_members_def st merges_def len Let_def)
    have "\<forall>j. 0 < j \<and> j < length (cur @ [k]) \<longrightarrow>
            merges enc cs comb th lm (take j (cur @ [k])) ((cur @ [k]) ! j)"
    proof (intro allI impI)
      fix j assume j: "0 < j \<and> j < length (cur @ [k])"
      show "merges enc cs comb th lm (take j (cur @ [k])) ((cur @ [k]) ! j)"
      proof (cases "j < length cur")
        case True
        then show ?thesis using m j by (simp add: nth_append)
      next
        case False
        then have "j = length cur" using j by simp
        then show ?thesis using \<open>merges enc cs comb th lm cur k\<close> by simp
      qed
    qed
    moreover have "\<forall>j. Suc j < length (chunks @ [cur @ [k]]) \<longrightarrow>
            \<not> merges enc cs comb th lm ((chunks @ [cur @ [k]]) ! j) (hd ((chunks @ [cur @ [k]]) ! Suc j))"
    proof (intro allI impI)
      fix j assume j: "Suc j < length (chunks @ [cur @ [k]])"
      then have "\<not> merges enc cs comb th lm ((chunks @ [cur]) ! j) (hd ((chunks @ [cur]) ! Suc j))"
        using b by simp
      then show "\<not> merges enc cs comb th lm ((chunks @ [cur @ [k]]) ! j) (hd ((chunks @ [cur @ [k]]) ! Suc j))"
        using j ne by (auto simp: nth_append split: if_splits)
    qed
    ultimately show ?thesis
      using c ne len m unfolding step seq_inv_def
      by (simp add: words_of_def)
  next
    case False
    then have step: "seq_step_members cs comb (map enc comb) th lm st k =
        (chunks @ [cur], [k], split_len (comb ! k))"
      using k by (auto simp add: seq_step_members_def st merges_def len Let_def)
    have "\<forall>j. Suc j < length (chunks @ [cur] @ [[k]]) \<longrightarrow>
            \<not> merges enc cs comb th lm ((chunks @ [cur] @ [[k]]) ! j) (hd ((chunks @ [cur] @ [[k]]) ! Suc j))"
    proof (intro allI impI)
      fix j assume j: "Suc j < length (chunks @ [cur] @ [[k]])"
      show "\<not> merges enc cs comb th lm ((chunks @ [cur] @ [[k]]) ! j) (hd ((chunks @ [cur] @ [[k]]) ! Suc j))"
      proof (cases "Suc j < length (chunks @ [cur])")
        case True
        then have "(chunks @ [cur] @ [[k]]) ! j = (chunks @ [cur]) ! j"
          "(chunks @ [cur] @ [[k]]) ! Suc j = (chunks @ [cur]) ! Suc j"
          using nth_append[of "chunks @ [cur]" "[[k]]"] by simp_all
        then show ?thesis using b True by simp
      next
        case False
        then have "j = length chunks" using j by simp
        then show ?thesis using \<open>\<not> merges enc cs comb th lm cur k\<close> by (simp add: nth_append)
      qed
    qed
    then show ?thesis
      using c ne len m unfolding step seq_inv_def
      by (simp add: words_of_def)
  qed
qed

lemma seq_inv_fold:
  assumes "0 < k" "k \<le> length comb"
  shows "seq_inv enc cs comb th lm k
           (foldl (seq_step_members cs comb (map enc comb) th lm) ([], [0], split_len (comb ! 0)) [1..<k])"
  using assms
proof (induction k)
  case 0
  then show ?case by simp
next
  case (Suc k)
  show ?case
  proof (cases "k = 0")
    case True
    then show ?thesis using seq_inv_init[of enc cs comb th lm] by simp
  next
    case False
    then have "seq_inv enc cs comb th lm k
           (foldl (seq_step_members cs comb (map enc comb) th lm) ([], [0], split_len (comb ! 0)) [1..<k])"
      using Suc by simp
    from seq_inv_step[OF this] False Suc.prems show ?thesis by simp
  qed
qed

lemma seq_step_texts:
  "seq_step cs comb emb th lm (map (chunk_text comb) chunks, map (\<lambda>i. comb ! i) cur, len) i =
   (case seq_step_members cs comb emb th lm (chunks, cur, len) i of
      (chunks', cur', len') \<Rightarrow> (map (chunk_text comb) chunks', map (\<lambda>i. comb ! i) cur', len'))"
  by (simp add: seq_step_def seq_step_members_def chunk_text_def Let_def)

lemma seq_fold_texts:
  "foldl (seq_step cs comb emb th lm) (map (chunk_text comb) chunks, map (\<lambda>i. comb ! i) cur, len) xs =
   (case foldl (seq_step_members cs comb emb th lm) (chunks, cur, len) xs of
      (chunks', cur', len') \<Rightarrow> (map (chunk_text comb) chunks', map (\<lambda>i. comb ! i) cur', len'))"
proof (induction xs arbitrary: chunks cur len)
  case Nil
  then show ?case by simp
next
  case (Cons x xs)
  obtain chunks' cur' len' where s: "seq_step_members cs comb emb th lm (chunks, cur, len) x = (chunks', cur', len')"
    by (cases "seq_step_members cs comb emb th lm (chunks, cur, len) x") auto
  show ?case
    using Cons[of chunks' cur' len'] by (simp add: seq_step_texts s)
qed

lemma semantic_chunking_texts:
  "semantic_chunking enc cs comb th cl =
   (case semantic_chunking_members enc cs comb th cl of
      Inl e \<Rightarrow> Inl e
    | Inr ms \<Rightarrow> Inr (map (chunk_text comb) ms))"
proof (cases comb)
  case Nil
  then show ?thesis by (simp add: semantic_chunking_def semantic_chunking_members_def)
next
  case (Cons c0 rest)
  have "foldl (seq_step cs comb (map enc comb) th (the_limit cl)) ([], [c0], split_len c0) [1..<length comb] =
     (case foldl (seq_step_members cs comb (map enc comb) th (the_limit cl)) ([], [0], split_len c0) [1..<length comb] of
      (chunks', cur', len') \<Rightarrow> (map (chunk_text comb) chunks', map (\<lambda>i. comb ! i) cur', len'))"
    using seq_fold_texts[of cs comb "map enc comb" th "the_limit cl" "[]" "[0]" "split_len c0" "[1..<length comb]"]
    by (simp add: Cons)
  then show ?thesis
    by (simp add: semantic_chunking_def semantic_chunking_members_def Cons the_limit_def chunk_text_def
          split: prod.splits)
qed

lemma semantic_chunking_members_inv:
  assumes "comb \<noteq> []"
  shows "\<exists>chunks cur len.
           semantic_chunking_members enc cs comb th cl = Inr (chunks @ [cur]) \<and>
           seq_inv enc cs comb th (the_limit cl) (length comb) (chunks, cur, len)"
proof -
  obtain c0 rest where c: "comb = c0 # rest"
    using assms by (cases comb) auto
  let ?st = "foldl (seq_step_members cs comb (map enc comb) th (the_limit cl))
               ([], [0], split_len (comb ! 0)) [1..<length comb]"
  obtain chunks cur len where st: "?st = (chunks, cur, len)"
    by (cases ?st) auto
  have "seq_inv enc cs comb th (the_limit cl) (length comb) ?st"
    by (rule seq_inv_fold) (simp_all add: c)
  moreover have "semantic_chunking_members enc cs comb th cl = Inr (chunks @ [cur])"
    using st by (simp add: semantic_chunking_members_def c the_limit_def)
  ultimately show ?thesis
    using st by auto
qed

lemma semantic_chunking_members_facts:
  assumes "comb \<noteq> []"
  shows "\<exists>ms. semantic_chunking_members enc cs comb th cl = Inr ms \<and>
           concat ms = [0..<length comb] \<and> [] \<notin> set ms \<and>
           (\<forall>c \<in> set ms. \<forall>j. 0 < j \<and> j < length c \<longrightarrow>
              merges enc cs comb th (the_limit cl) (take j c) (c ! j)) \<and>
           (\<forall>j. Suc j < length ms \<longrightarrow>
              \<not> merges enc cs comb th (the_limit cl) (ms ! j) (hd (ms ! Suc j)))"
proof -
  obtain chunks cur len where
    "semantic_chunking_members enc cs comb th cl = Inr (chunks @ [cur])"
    "seq_inv enc cs comb th (the_limit cl) (length comb) (chunks, cur, len)"
    using semantic_chunking_members_inv[OF assms] by blast
  then show ?thesis
    unfolding seq_inv_def by (intro exI[of _ "chunks @ [cur]"]) auto
qed

lemma sublist_of_upt:
  assumes "A @ c @ B = [0..<n]"
  shows "c = [length A..<length A + length c]"
proof (rule nth_equalityI)
  show "length c = length [length A..<length A + length c]" by simp
  fix j assume j: "j < length c"
  have "length (A @ c @ B) = n" using assms by simp
  then have "length A + j < n" using j by simp
  have "c ! j = (A @ c @ B) ! (length A + j)"
    using j by (simp add: nth_append)
  also have "\<dots> = length A + j"
    using \<open>length A + j < n\<close> by (simp add: assms)
  finally show "c ! j = [length A..<length A + length c] ! j"
    using j by simp
qed

lemma chunk_of_upt:
  assumes "concat ms = [0..<n]" "k < length ms"
  shows "ms ! k = [length (concat (take k ms))..<length (concat (take k ms)) + length (ms ! k)]"
proof -
  have "ms = take k ms @ [ms ! k] @ drop (Suc k) ms"
    using assms(2) by (simp add: id_take_nth_drop[symmetric])
  then have "concat ms = concat (take k ms) @ ms ! k @ concat (drop (Suc k) ms)"
    by (metis concat.simps(2) concat_append append_Nil concat.simps(1) append_Nil2)
  then show ?thesis
    using sublist_of_upt[of "concat (take k ms)" "ms ! k" "concat (drop (Suc k) ms)" n] assms(1)
    by simp
qed

lemma chunk_offsets:
  assumes "concat ms = [0..<n]" "k < length ms" "p < length (ms ! k)"
  shows "ms ! k ! p = length (concat (take k ms)) + p"
proof -
  have "ms ! k ! p = [length (concat (take k ms))..<length (concat (take k ms)) + length (ms ! k)] ! p"
    using chunk_of_upt[OF assms(1,2)] by simp
  then show ?thesis using assms(3) by simp
qed

lemma concat_take_Suc:
  "k < length ms \<Longrightarrow> length (concat (take (Suc k) ms)) = length (concat (take k ms)) + length (ms ! k)"
  by (simp add: take_Suc_conv_app_nth)

lemma singletons_concat: "\<forall>c \<in> set ms. length c = 1 \<Longrightarrow> ms = map (\<lambda>x. [x]) (concat ms)"
proof (induction ms)
  case Nil
  then show ?case by simp
next
  case (Cons c ms)
  then obtain x where "c = [x]"
    by (cases c) auto
  then show ?case using Cons by simp
qed

lemma members_singletons:
  assumes "concat ms = [0..<n]" "\<forall>c \<in> set ms. length c = 1"
  shows "ms = map (\<lambda>i. [i]) [0..<n]"
  using singletons_concat[OF assms(2)] assms(1) by simp

lemma texts_of_singletons: "map (chunk_text comb) (map (\<lambda>i. [i]) [0..<length comb]) = comb"
  by (rule nth_equalityI) (simp_all add: chunk_text_def)

text \<open>
  C1. For every non-empty list of windows, any threshold and any word limit, the
  sequential chunker returns chunks whose member indices, concatenated in the order of
  emission, are exactly \<open>0, 1, \<dots>, n - 1\<close>: every window is in exactly one chunk, the
  chunks are in document order, and the first chunk contains window \<open>0\<close>. The strings
  the source returns are the texts of these chunks.
\<close>

theorem sequential_partition:
  assumes "comb \<noteq> []"
  shows "\<exists>ms. semantic_chunking_members encode cosine_similarity comb threshold chunk_limit = Inr ms \<and>
              semantic_chunking encode cosine_similarity comb threshold chunk_limit =
                Inr (map (chunk_text comb) ms) \<and>
              concat ms = [0..<length comb] \<and>
              (\<forall>i < length comb. \<exists>!k. k < length ms \<and> i \<in> set (ms ! k)) \<and>
              0 \<in> set (hd ms)"
proof -
  obtain ms where ms: "semantic_chunking_members encode cosine_similarity comb threshold chunk_limit = Inr ms"
    and c: "concat ms = [0..<length comb]" and ne: "[] \<notin> set ms"
    using semantic_chunking_members_facts[OF assms] by blast
  have tx: "semantic_chunking encode cosine_similarity comb threshold chunk_limit =
                Inr (map (chunk_text comb) ms)"
    by (simp add: semantic_chunking_texts ms)
  have d: "distinct (concat ms)"
    by (simp add: c)
  have dm: "distinct ms"
    using d ne by (simp add: distinct_concat_iff)
  have uniq: "\<exists>!k. k < length ms \<and> i \<in> set (ms ! k)" if "i < length comb" for i
  proof -
    have "i \<in> set (concat ms)" using that by (simp add: c)
    then obtain c where "c \<in> set ms" "i \<in> set c"
      by auto
    then obtain k where k: "k < length ms" "i \<in> set (ms ! k)"
      by (metis in_set_conv_nth)
    have "k' = k" if k': "k' < length ms" "i \<in> set (ms ! k')" for k'
    proof (rule ccontr)
      assume "k' \<noteq> k"
      then have "ms ! k' \<noteq> ms ! k"
        using dm k(1) k'(1) by (simp add: nth_eq_iff_index_eq)
      then have "set (ms ! k') \<inter> set (ms ! k) = {}"
        using d k(1) k'(1) by (simp add: distinct_concat_iff)
      then show False using k(2) k'(2) by auto
    qed
    then show ?thesis using k by auto
  qed
  have "concat ms \<noteq> []" using assms by (simp add: c)
  then have "ms \<noteq> []" by auto
  then obtain m rest where m: "ms = m # rest" by (cases ms) auto
  then have "m \<noteq> []" using ne by auto
  then have "hd m = hd (concat ms)" by (simp add: m)
  also have "\<dots> = 0" using assms by (simp add: c upt_rec)
  finally have "0 \<in> set (hd ms)" using \<open>m \<noteq> []\<close> m
    by (metis hd_in_set list.sel(1))
  then show ?thesis
    using ms tx c uniq by blast
qed

theorem sequential_partition_witness:
  "pqq \<noteq> [] \<and>
   semantic_chunking_members text_embedding same_text pqq (3 / 4) None = Inr [[0], [1, 2]] \<and>
   semantic_chunking text_embedding same_text pqq (3 / 4) None = Inr [''p'', ''q q''] \<and>
   concat [[0], [1, 2]] = [0..<length pqq] \<and>
   (2::nat) < length pqq \<and> (\<exists>!k. k < length [[0], [1, 2::nat]] \<and> (2::nat) \<in> set ([[0], [1, 2]] ! k)) \<and>
   0 \<in> set (hd [[0], [1, 2::nat]])"
proof -
  have h: "pqq \<noteq> []" by (simp add: pqq_def)
  have e: "semantic_chunking_members text_embedding same_text pqq (3 / 4) None = Inr [[0], [1, 2]]"
    by code_simp
  have t: "map (chunk_text pqq) [[0], [1, 2]] = [''p'', ''q q'']"
    by (simp add: chunk_text_def pqq_def)
  obtain ms where ms: "semantic_chunking_members text_embedding same_text pqq (3 / 4) None = Inr ms"
      "semantic_chunking text_embedding same_text pqq (3 / 4) None = Inr (map (chunk_text pqq) ms)"
      "concat ms = [0..<length pqq]"
      "\<forall>i < length pqq. \<exists>!k. k < length ms \<and> i \<in> set (ms ! k)"
      "0 \<in> set (hd ms)"
    using sequential_partition[OF h, of text_embedding same_text "3 / 4" None] by blast
  have m: "ms = [[0], [1, 2]]"
    using ms(1) e by simp
  have two: "(2::nat) < length pqq"
    by (simp add: pqq_def)
  have uniq: "\<exists>!k. k < length [[0], [1, 2::nat]] \<and> (2::nat) \<in> set ([[0], [1, 2]] ! k)"
    using ms(4)[unfolded m, rule_format, OF two] .
  have texts: "semantic_chunking text_embedding same_text pqq (3 / 4) None = Inr [''p'', ''q q'']"
    using ms(2)[unfolded m t] .
  have all: "concat [[0], [1, 2]] = [0..<length pqq]"
    using ms(3)[unfolded m] .
  have first: "0 \<in> set (hd [[0], [1, 2::nat]])"
    using ms(5)[unfolded m] .
  show ?thesis
    by (insert h e texts all two uniq first, intro conjI)
qed

text \<open>
  C3. For every window position \<open>i \<ge> 1\<close> the similarity that decides is the one between
  the embeddings of windows \<open>i\<close> and \<open>i - 1\<close>. Let window \<open>i - 1\<close> be at position \<open>p\<close> of
  chunk \<open>k\<close>, so that the chunk in progress when \<open>i\<close> is processed is the first
  \<open>p + 1\<close> members of chunk \<open>k\<close>. Window \<open>i\<close> is appended to that chunk (it is its next
  member) exactly when the similarity is strictly above the threshold and the word count
  of the chunk in progress plus that of window \<open>i\<close> is at most the limit; otherwise the
  chunk ends with window \<open>i - 1\<close> and the next chunk starts with window \<open>i\<close>. The
  strings that \<open>semantic_chunking\<close> returns are the texts of these chunks.
\<close>

theorem sequential_merge_rule:
  assumes "comb \<noteq> []" "0 < i" "i < length comb"
  shows "\<exists>ms k p. semantic_chunking_members encode cosine_similarity comb threshold chunk_limit = Inr ms \<and>
           semantic_chunking encode cosine_similarity comb threshold chunk_limit =
             Inr (map (chunk_text comb) ms) \<and>
           k < length ms \<and> p < length (ms ! k) \<and> ms ! k ! p = i - 1 \<and>
           (if cosine_similarity (encode (comb ! i)) (encode (comb ! (i - 1))) > threshold \<and>
               int (words_of comb (take (Suc p) (ms ! k))) + int (split_len (comb ! i))
                 \<le> the_limit chunk_limit
            then Suc p < length (ms ! k) \<and> ms ! k ! Suc p = i
            else Suc p = length (ms ! k) \<and> Suc k < length ms \<and> hd (ms ! Suc k) = i)"
proof -
  let ?L = "the_limit chunk_limit"
  let ?M = "merges encode cosine_similarity comb threshold ?L"
  obtain ms where ms: "semantic_chunking_members encode cosine_similarity comb threshold chunk_limit = Inr ms"
    and c: "concat ms = [0..<length comb]" and ne: "[] \<notin> set ms"
    and a: "\<forall>c \<in> set ms. \<forall>j. 0 < j \<and> j < length c \<longrightarrow> ?M (take j c) (c ! j)"
    and b: "\<forall>j. Suc j < length ms \<longrightarrow> \<not> ?M (ms ! j) (hd (ms ! Suc j))"
    using semantic_chunking_members_facts[OF assms(1)] by blast
  have tx: "semantic_chunking encode cosine_similarity comb threshold chunk_limit =
             Inr (map (chunk_text comb) ms)"
    by (simp add: semantic_chunking_texts ms)
  have "i - 1 \<in> set (concat ms)"
    using assms by (simp add: c)
  then obtain ch where "ch \<in> set ms" "i - 1 \<in> set ch"
    by auto
  then obtain k p where k: "k < length ms" and p: "p < length (ms ! k)" and kp: "ms ! k ! p = i - 1"
    by (metis in_set_conv_nth)
  let ?off = "length (concat (take k ms))"
  have off: "?off + p = i - 1"
    using chunk_offsets[OF c k p] kp by simp
  have M: "?M (take (Suc p) (ms ! k)) i \<longleftrightarrow>
        (cosine_similarity (encode (comb ! i)) (encode (comb ! (i - 1))) > threshold \<and>
         int (words_of comb (take (Suc p) (ms ! k))) + int (split_len (comb ! i)) \<le> ?L)"
    by (simp add: merges_def)
  show ?thesis
  proof (cases "Suc p < length (ms ! k)")
    case True
    have next_i: "ms ! k ! Suc p = i"
      using chunk_offsets[OF c k True] off assms(2) by simp
    have "?M (take (Suc p) (ms ! k)) (ms ! k ! Suc p)"
      using a k True by (simp add: nth_mem)
    then have "?M (take (Suc p) (ms ! k)) i"
      by (simp add: next_i)
    then show ?thesis
      using ms tx k p kp True next_i M by (intro exI[of _ ms] exI[of _ k] exI[of _ p]) simp
  next
    case False
    then have last: "Suc p = length (ms ! k)" using p by simp
    have len: "length (concat (take (Suc k) ms)) = i"
      using concat_take_Suc[OF k] off last assms(2) by simp
    have "Suc k < length ms"
    proof (rule ccontr)
      assume "\<not> Suc k < length ms"
      then have "take (Suc k) ms = ms" using k by simp
      then have "length (concat ms) = i" using len by simp
      then show False using assms(3) by (simp add: c)
    qed
    moreover have "ms ! Suc k \<noteq> []"
      using ne calculation by (metis nth_mem)
    then have "hd (ms ! Suc k) = ms ! Suc k ! 0" "0 < length (ms ! Suc k)"
      by (simp_all add: hd_conv_nth)
    then have hd_i: "hd (ms ! Suc k) = i"
      using chunk_offsets[OF c calculation, of 0] len by simp
    moreover have "\<not> ?M (take (Suc p) (ms ! k)) i"
      using b calculation(1) hd_i last by auto
    ultimately show ?thesis
      using ms tx k p kp last M by (intro exI[of _ ms] exI[of _ k] exI[of _ p]) simp
  qed
qed

theorem sequential_merge_rule_witness:
  "pqq \<noteq> [] \<and> (0::nat) < 2 \<and> 2 < length pqq \<and>
   semantic_chunking_members text_embedding same_text pqq (3 / 4) None = Inr [[0], [1, 2]] \<and>
   semantic_chunking text_embedding same_text pqq (3 / 4) None = Inr [''p'', ''q q''] \<and>
   same_text (text_embedding (pqq ! 2)) (text_embedding (pqq ! (2 - 1))) > 3 / 4 \<and>
   int (words_of pqq (take (Suc 0) ([[0], [1, 2]] ! 1))) + int (split_len (pqq ! 2)) \<le> the_limit None \<and>
   [[0], [1, 2::nat]] ! 1 ! Suc 0 = 2"
proof -
  have h: "pqq \<noteq> []" "(0::nat) < 2" "2 < length pqq"
    by (simp_all add: pqq_def)
  have e: "semantic_chunking_members text_embedding same_text pqq (3 / 4) None = Inr [[0], [1, 2]]"
    by code_simp
  have c1: "same_text (text_embedding (pqq ! 2)) (text_embedding (pqq ! (2 - 1))) > 3 / 4"
    by (simp add: same_text_def text_embedding_def pqq_def)
  obtain ms k p where r:
      "semantic_chunking_members text_embedding same_text pqq (3 / 4) None = Inr ms"
      "k < length ms" "p < length (ms ! k)" "ms ! k ! p = 2 - 1"
      "if same_text (text_embedding (pqq ! 2)) (text_embedding (pqq ! (2 - 1))) > 3 / 4 \<and>
          int (words_of pqq (take (Suc p) (ms ! k))) + int (split_len (pqq ! 2)) \<le> the_limit None
       then Suc p < length (ms ! k) \<and> ms ! k ! Suc p = 2
       else Suc p = length (ms ! k) \<and> Suc k < length ms \<and> hd (ms ! Suc k) = 2"
      "semantic_chunking text_embedding same_text pqq (3 / 4) None = Inr (map (chunk_text pqq) ms)"
    using sequential_merge_rule[OF h, of text_embedding same_text "3 / 4" None] by blast
  have ms: "ms = [[0], [1, 2]]"
    using r(1) e by simp
  have kp: "k = 1 \<and> p = 0"
    using r(2,3,4) unfolding ms by (cases k; cases p) (auto simp: nth_Cons split: nat.splits)
  have "int (words_of pqq (take (Suc 0) ([[0], [1, 2]] ! 1))) + int (split_len (pqq ! 2)) \<le> the_limit None"
    by code_simp
  moreover have "[[0], [1, 2::nat]] ! 1 ! Suc 0 = 2"
    using r(5) c1 calculation unfolding ms using kp by simp
  moreover have "semantic_chunking text_embedding same_text pqq (3 / 4) None = Inr [''p'', ''q q'']"
    using r(6) unfolding ms by (simp add: chunk_text_def pqq_def)
  ultimately show ?thesis
    using h e c1 by blast
qed


section \<open>Properties of the cosine, and threshold 1\<close>

lemma dot_self_nonneg: "0 \<le> dot u u"
  unfolding dot_def by (induction u) auto

lemma dot_scale: "dot (map (\<lambda>x. x / a) u) (map (\<lambda>x. x / b) v) = dot u v / (a * b)"
  unfolding dot_def
proof (induction u arbitrary: v)
  case Nil
  then show ?case by simp
next
  case (Cons x u)
  then show ?case by (cases v) (simp_all add: add_divide_distrib)
qed

lemma cauchy_schwarz: "(dot u v)\<^sup>2 \<le> dot u u * dot v v"
proof (induction u arbitrary: v)
  case Nil
  then show ?case by (simp add: dot_def)
next
  case (Cons a u)
  show ?case
  proof (cases v)
    case Nil
    then show ?thesis using dot_self_nonneg[of "a # u"] by (simp add: dot_def)
  next
    case (Cons b w)
    define S where "S = dot u w"
    define A where "A = dot u u"
    define B where "B = dot w w"
    have S: "S\<^sup>2 \<le> A * B" and A: "0 \<le> A" and B: "0 \<le> B"
      unfolding S_def A_def B_def using Cons.IH dot_self_nonneg by auto
    define x where "x = a\<^sup>2 * B"
    define y where "y = b\<^sup>2 * A"
    have xy: "0 \<le> x" "0 \<le> y"
      unfolding x_def y_def using A B by simp_all
    have "(2 * (a * b * S))\<^sup>2 = 4 * ((a\<^sup>2 * b\<^sup>2) * S\<^sup>2)"
      by (simp add: power_mult_distrib)
    also have "\<dots> \<le> 4 * ((a\<^sup>2 * b\<^sup>2) * (A * B))"
      using S by (intro mult_left_mono) auto
    also have "\<dots> = 4 * (x * y)"
      unfolding x_def y_def by simp
    also have "\<dots> \<le> (x + y)\<^sup>2"
    proof -
      have "(x + y)\<^sup>2 - 4 * (x * y) = (x - y)\<^sup>2"
        by (simp add: power2_sum power2_diff)
      then show ?thesis
        using zero_le_power2[of "x - y"] by linarith
    qed
    finally have sq: "(2 * (a * b * S))\<^sup>2 \<le> (x + y)\<^sup>2" .
    have "0 \<le> x + y" using xy by linarith
    with sq have "2 * (a * b * S) \<le> x + y"
      by (rule power2_le_imp_le)
    then have key: "2 * (a * b * S) \<le> a\<^sup>2 * B + b\<^sup>2 * A"
      unfolding x_def y_def .
    have "(a * b + S)\<^sup>2 = a\<^sup>2 * b\<^sup>2 + 2 * (a * b * S) + S\<^sup>2"
      by (simp add: power2_sum power_mult_distrib)
    also have "\<dots> \<le> a\<^sup>2 * b\<^sup>2 + (a\<^sup>2 * B + b\<^sup>2 * A) + A * B"
      using key S by linarith
    also have "\<dots> = (a\<^sup>2 + A) * (b\<^sup>2 + B)"
      by (simp add: distrib_left distrib_right)
    finally have "(a * b + S)\<^sup>2 \<le> (a\<^sup>2 + A) * (b\<^sup>2 + B)" .
    then show ?thesis
      unfolding S_def A_def B_def Cons by (simp add: dot_def power2_eq_square)
  qed
qed

lemma cosine_le_one: "cosine u v \<le> 1"
proof -
  define nu where "nu = sqrt (dot u u)"
  define nv where "nv = sqrt (dot v v)"
  have c: "cosine u v = dot u v / ((if nu = 0 then 1 else nu) * (if nv = 0 then 1 else nv))"
    by (simp add: cosine_def normalize_def Let_def dot_scale nu_def nv_def)
  have abs: "\<bar>dot u v\<bar> \<le> nu * nv"
  proof -
    have "sqrt ((dot u v)\<^sup>2) \<le> sqrt (dot u u * dot v v)"
      using cauchy_schwarz by (rule real_sqrt_le_mono)
    then show ?thesis
      by (simp add: nu_def nv_def real_sqrt_mult)
  qed
  have nn: "0 \<le> nu" "0 \<le> nv"
    by (simp_all add: nu_def nv_def dot_self_nonneg)
  show ?thesis
  proof (cases "nu = 0 \<or> nv = 0")
    case True
    then have "dot u v = 0" using abs by auto
    then show ?thesis by (simp add: c)
  next
    case False
    then have "0 < nu * nv" using nn by simp
    moreover have "dot u v \<le> nu * nv" using abs by simp
    ultimately have "dot u v / (nu * nv) \<le> 1"
      by (simp add: divide_le_eq)
    then show ?thesis using False by (simp add: c)
  qed
qed

lemma cosine_self: "dot u u \<noteq> 0 \<Longrightarrow> cosine u u = 1"
proof -
  assume n: "dot u u \<noteq> 0"
  then have "sqrt (dot u u) \<noteq> 0" by simp
  moreover have "sqrt (dot u u) * sqrt (dot u u) = dot u u"
    using dot_self_nonneg by simp
  ultimately show ?thesis
    using n by (simp add: cosine_def normalize_def Let_def dot_scale)
qed

lemma cosine_zero: "dot u u = 0 \<Longrightarrow> cosine u v = 0"
proof -
  assume "dot u u = 0"
  then have "(dot u v)\<^sup>2 \<le> 0" using cauchy_schwarz[of u v] by simp
  then have "dot u v = 0" by simp
  then show ?thesis
    by (simp add: cosine_def normalize_def Let_def dot_scale)
qed

lemma chunk_consecutive:
  assumes "concat ms = [0..<n]" "c \<in> set ms" "0 < j" "j < length c"
  shows "c ! j = Suc (c ! (j - 1))"
proof -
  obtain k where k: "k < length ms" "ms ! k = c"
    using assms(2) by (auto simp: in_set_conv_nth)
  have "ms ! k ! j = length (concat (take k ms)) + j"
    using chunk_offsets[OF assms(1) k(1)] assms(4) k(2) by simp
  moreover have "ms ! k ! (j - 1) = length (concat (take k ms)) + (j - 1)"
    using chunk_offsets[OF assms(1) k(1), of "j - 1"] assms(4) k(2) by simp
  ultimately show ?thesis
    using assms(3) k(2) by simp
qed

text \<open>
  C8. Let the similarity of two embeddings that differ be at most 1, and the threshold
  be 1. Then two windows are in the same chunk of the sequential chunker only next to each
  other and with identical embeddings: each member of a chunk after its first is the
  window after the member before it, and has the same embedding. So when no two adjacent
  windows have identical embeddings, every chunk is a single window and the strings
  returned are the windows themselves. Identical embeddings do merge when the similarity
  computed for them is above 1, as it can be in floating point.
\<close>

theorem threshold_one_single_windows:
  assumes "\<forall>u v. u \<noteq> v \<longrightarrow> cosine_similarity u v \<le> 1" "comb \<noteq> []"
  shows "\<exists>ms. semantic_chunking_members encode cosine_similarity comb 1 chunk_limit = Inr ms \<and>
              semantic_chunking encode cosine_similarity comb 1 chunk_limit =
                Inr (map (chunk_text comb) ms) \<and>
              (\<forall>c \<in> set ms. \<forall>j. 0 < j \<and> j < length c \<longrightarrow>
                  c ! j = Suc (c ! (j - 1)) \<and>
                  encode (comb ! (c ! j)) = encode (comb ! (c ! (j - 1)))) \<and>
              ((\<forall>i. 0 < i \<and> i < length comb \<longrightarrow> encode (comb ! i) \<noteq> encode (comb ! (i - 1))) \<longrightarrow>
                  ms = map (\<lambda>i. [i]) [0..<length comb] \<and>
                  semantic_chunking encode cosine_similarity comb 1 chunk_limit = Inr comb)"
proof -
  obtain ms where ms: "semantic_chunking_members encode cosine_similarity comb 1 chunk_limit = Inr ms"
    and c: "concat ms = [0..<length comb]" and ne: "[] \<notin> set ms"
    and a: "\<forall>c \<in> set ms. \<forall>j. 0 < j \<and> j < length c \<longrightarrow>
              merges encode cosine_similarity comb 1 (the_limit chunk_limit) (take j c) (c ! j)"
    using semantic_chunking_members_facts[OF assms(2)] by blast
  have tx: "semantic_chunking encode cosine_similarity comb 1 chunk_limit =
                Inr (map (chunk_text comb) ms)"
    by (simp add: semantic_chunking_texts ms)
  have same: "ch ! j = Suc (ch ! (j - 1)) \<and>
              encode (comb ! (ch ! j)) = encode (comb ! (ch ! (j - 1)))"
    if ch: "ch \<in> set ms" and j: "0 < j" "j < length ch" for ch j
  proof -
    have next_window: "ch ! j = Suc (ch ! (j - 1))"
      using chunk_consecutive[OF c ch j] .
    have "merges encode cosine_similarity comb 1 (the_limit chunk_limit) (take j ch) (ch ! j)"
      using a ch j by blast
    then have "1 < cosine_similarity (encode (comb ! (ch ! j))) (encode (comb ! (ch ! j - 1)))"
      by (simp add: merges_def)
    then have "\<not> cosine_similarity (encode (comb ! (ch ! j))) (encode (comb ! (ch ! (j - 1)))) \<le> 1"
      using next_window by simp
    then have "encode (comb ! (ch ! j)) = encode (comb ! (ch ! (j - 1)))"
      using assms(1) by blast
    then show ?thesis using next_window by simp
  qed
  have singles: "ms = map (\<lambda>i. [i]) [0..<length comb] \<and>
                 semantic_chunking encode cosine_similarity comb 1 chunk_limit = Inr comb"
    if differ: "\<forall>i. 0 < i \<and> i < length comb \<longrightarrow> encode (comb ! i) \<noteq> encode (comb ! (i - 1))"
  proof -
    have "length ch = 1" if ch: "ch \<in> set ms" for ch
    proof (rule ccontr)
      assume "length ch \<noteq> 1"
      moreover have "ch \<noteq> []" using ch ne by auto
      ultimately have one: "0 < (1::nat)" "1 < length ch"
        by (cases ch; auto)+
      have s: "ch ! 1 = Suc (ch ! (1 - 1))"
        "encode (comb ! (ch ! 1)) = encode (comb ! (ch ! (1 - 1)))"
        using same[OF ch one] by blast+
      have "ch ! 1 \<in> set (concat ms)"
        using ch one(2) by (auto intro: nth_mem)
      then have "ch ! 1 < length comb" by (simp add: c)
      moreover have "0 < ch ! 1" "ch ! (1 - 1) = ch ! 1 - 1" using s(1) by simp_all
      ultimately show False
        using differ s(2) by metis
    qed
    then have m: "ms = map (\<lambda>i. [i]) [0..<length comb]"
      using members_singletons[OF c] by blast
    have "semantic_chunking encode cosine_similarity comb 1 chunk_limit = Inr comb"
      unfolding tx m by (simp only: texts_of_singletons)
    then show ?thesis using m by simp
  qed
  show ?thesis
    using ms tx same singles by blast
qed

theorem threshold_one_single_windows_witness:
  "twice \<noteq> [] \<and>
   semantic_chunking_members text_embedding rounded_similarity twice 1 None = Inr [[0, 1]] \<and>
   semantic_chunking text_embedding rounded_similarity twice 1 None = Inr [''x x''] \<and>
   text_embedding (twice ! ([0, 1] ! 1)) = text_embedding (twice ! ([0, 1] ! (1 - 1))) \<and>
   pq \<noteq> [] \<and> axis_embedding (pq ! 1) \<noteq> axis_embedding (pq ! 0) \<and>
   semantic_chunking_members axis_embedding cosine pq 1 None = Inr [[0], [1]] \<and>
   semantic_chunking axis_embedding cosine pq 1 None = Inr [''p'', ''q'']"
proof -
  have h1: "\<forall>u v. u \<noteq> v \<longrightarrow> rounded_similarity u v \<le> 1" and h2: "twice \<noteq> []"
    by (simp_all add: rounded_similarity_def twice_def)
  have e: "semantic_chunking_members text_embedding rounded_similarity twice 1 None = Inr [[0, 1]]"
    by code_simp
  obtain ms where ms:
    "semantic_chunking_members text_embedding rounded_similarity twice 1 None = Inr ms"
    "semantic_chunking text_embedding rounded_similarity twice 1 None = Inr (map (chunk_text twice) ms)"
    "\<forall>c \<in> set ms. \<forall>j. 0 < j \<and> j < length c \<longrightarrow>
        c ! j = Suc (c ! (j - 1)) \<and>
        text_embedding (twice ! (c ! j)) = text_embedding (twice ! (c ! (j - 1)))"
    using threshold_one_single_windows[OF h1 h2, of text_embedding None] by blast
  have m: "ms = [[0, 1]]" using ms(1) e by simp
  have merged: "semantic_chunking text_embedding rounded_similarity twice 1 None = Inr [''x x'']"
    using ms(2) unfolding m by (simp add: chunk_text_def twice_def)
  have "[0, 1] \<in> set [[0, 1::nat]] \<and> (0::nat) < 1 \<and> 1 < length [0, 1::nat]"
    by simp
  then have same: "text_embedding (twice ! ([0, 1] ! 1)) = text_embedding (twice ! ([0, 1] ! (1 - 1)))"
    using ms(3) unfolding m by blast
  have g1: "\<forall>u v. u \<noteq> v \<longrightarrow> cosine u v \<le> 1" and g2: "pq \<noteq> []"
    by (simp_all add: cosine_le_one pq_def)
  have d: "axis_embedding (pq ! 1) \<noteq> axis_embedding (pq ! 0)"
    by (simp add: axis_embedding_def pq_def)
  have differ: "\<forall>i. 0 < i \<and> i < length pq \<longrightarrow> axis_embedding (pq ! i) \<noteq> axis_embedding (pq ! (i - 1))"
  proof (intro allI impI)
    fix i assume "0 < i \<and> i < length pq"
    then have "i = 1" by (simp add: pq_def)
    then show "axis_embedding (pq ! i) \<noteq> axis_embedding (pq ! (i - 1))"
      using d by simp
  qed
  obtain ns where ns:
    "semantic_chunking_members axis_embedding cosine pq 1 None = Inr ns"
    "(\<forall>i. 0 < i \<and> i < length pq \<longrightarrow> axis_embedding (pq ! i) \<noteq> axis_embedding (pq ! (i - 1))) \<longrightarrow>
        ns = map (\<lambda>i. [i]) [0..<length pq] \<and>
        semantic_chunking axis_embedding cosine pq 1 None = Inr pq"
    using threshold_one_single_windows[OF g1 g2, of axis_embedding None] by blast
  have n: "ns = map (\<lambda>i. [i]) [0..<length pq]"
    "semantic_chunking axis_embedding cosine pq 1 None = Inr pq"
    using ns(2) differ by blast+
  have "map (\<lambda>i. [i]) [0..<length pq] = [[0], [1]]"
    by (simp add: pq_def upt_rec)
  then have sm: "semantic_chunking_members axis_embedding cosine pq 1 None = Inr [[0], [1]]"
    using ns(1) n(1) by simp
  have st: "semantic_chunking axis_embedding cosine pq 1 None = Inr [''p'', ''q'']"
    using n(2) by (simp add: pq_def)
  show ?thesis
    by (insert h2 e merged same g2 d sm st, intro conjI)
qed


section \<open>Properties of the anchor chunker: the ranking\<close>

lemma insort_key_ranks:
  fixes f :: "'a \<Rightarrow> 'k::linorder" and g :: "'a \<Rightarrow> 'i::linorder"
  assumes "sorted_wrt (\<lambda>x y. f x < f y \<or> (f x = f y \<and> g x < g y)) ys" "\<forall>y \<in> set ys. g x < g y"
  shows "sorted_wrt (\<lambda>x y. f x < f y \<or> (f x = f y \<and> g x < g y)) (insort_key f x ys)"
  using assms
proof (induction ys)
  case Nil
  then show ?case by simp
next
  case (Cons y ys)
  show ?case
  proof (cases "f x \<le> f y")
    case True
    have "f x < f z \<or> (f x = f z \<and> g x < g z)" if "z \<in> set (y # ys)" for z
    proof -
      have "f y \<le> f z" using that Cons.prems(1) by auto
      then have "f x \<le> f z" using True by simp
      moreover have "g x < g z" using that Cons.prems(2) by auto
      ultimately show ?thesis by auto
    qed
    then show ?thesis using True Cons.prems(1) by simp
  next
    case False
    then have "sorted_wrt (\<lambda>x y. f x < f y \<or> (f x = f y \<and> g x < g y)) (insort_key f x ys)"
      using Cons by simp
    then show ?thesis using False Cons.prems(1) by (auto simp: set_insort_key)
  qed
qed

lemma sort_key_ranks:
  fixes f :: "'a \<Rightarrow> 'k::linorder" and g :: "'a \<Rightarrow> 'i::linorder"
  assumes "sorted_wrt (\<lambda>x y. g x < g y) xs"
  shows "sorted_wrt (\<lambda>x y. f x < f y \<or> (f x = f y \<and> g x < g y)) (sort_key f xs)"
  using assms
proof (induction xs)
  case Nil
  then show ?case by simp
next
  case (Cons x xs)
  then show ?case
    by (simp add: insort_key_ranks)
qed

lemma sorted_wrt_enumerate: "sorted_wrt (\<lambda>x y. fst x < fst y) (enumerate k xs)"
  by (induction xs arbitrary: k) (auto simp: in_set_enumerate_eq)

lemma ranked_sorted:
  "sorted_wrt ranks_before (ranked_candidates cs embs a)"
proof -
  have "sorted_wrt (\<lambda>x y. - snd x < - snd y \<or> (- snd x = - snd y \<and> fst x < fst y))
          (sort_key (\<lambda>x. - snd x) (enumerate 0 (map (cs a) embs)))"
    by (rule sort_key_ranks) (rule sorted_wrt_enumerate)
  moreover have "ranks_before = (\<lambda>x y. - snd x < - snd y \<or> (- snd x = - snd y \<and> fst x < fst y))"
    by (auto simp: ranks_before_def fun_eq_iff)
  ultimately show ?thesis
    by (simp only: ranked_candidates_def Let_def)
qed

lemma ranked_set:
  "set (ranked_candidates cs embs a) = {(j, cs a (embs ! j)) | j. j < length embs}"
  by (auto simp: ranked_candidates_def in_set_enumerate_eq)

lemma ranked_set_encode:
  assumes "a < length comb"
  shows "set (ranked_candidates cs (map enc comb) (map enc comb ! a)) =
         {(j, cs (enc (comb ! a)) (enc (comb ! j))) | j. j < length comb}"
  using assms by (auto simp: ranked_set)

lemma ranked_indices:
  "distinct (map fst (ranked_candidates cs embs a))"
  "set (map fst (ranked_candidates cs embs a)) = {0..<length embs}"
proof -
  let ?xs = "enumerate 0 (map (cs a) embs)"
  have "distinct (map fst ?xs)" by simp
  then have "distinct ?xs \<and> inj_on fst (set ?xs)"
    unfolding distinct_map .
  then show "distinct (map fst (ranked_candidates cs embs a))"
    by (simp add: ranked_candidates_def distinct_map)
  show "set (map fst (ranked_candidates cs embs a)) = {0..<length embs}"
    by (auto simp: ranked_set image_iff)
qed


section \<open>Properties of the anchor chunker: the scan of one anchor\<close>

lemma scan_spec_unfold:
  "scan_spec comb L (c0 # cands) r0 =
     (if int r0 + int (split_len (comb ! c0)) \<le> L
      then c0 # (if L \<le> int (r0 + split_len (comb ! c0)) then []
                 else scan_spec comb L cands (r0 + split_len (comb ! c0)))
      else (if L \<le> int r0 then [] else scan_spec comb L cands r0))"
  by (simp add: Let_def)

lemma scan_members_spec:
  assumes "distinct (map fst r)"
  shows "scan_members comb L r (chunk, used, running) =
     (let ms = scan_spec comb L (filter (\<lambda>j. j \<notin> used) (map fst r)) running
      in (chunk @ ms, used \<union> set ms, running + words_of comb ms))"
  using assms
proof (induction r arbitrary: chunk used running)
  case Nil
  then show ?case by (simp add: words_of_def)
next
  case (Cons x r)
  obtain idx sim where x: "x = (idx, sim)" by (cases x) auto
  have d: "distinct (map fst r)" and nin: "idx \<notin> fst ` set r"
    using Cons.prems by (simp_all add: x)
  have f: "filter (\<lambda>j. j \<notin> insert idx used) (map fst r) = filter (\<lambda>j. j \<notin> used) (map fst r)"
    using nin by (intro filter_cong) auto
  show ?case
  proof (cases "idx \<in> used")
    case True
    then show ?thesis using Cons.IH[OF d] by (simp add: x)
  next
    case False
    show ?thesis
    proof (cases "int running + int (split_len (comb ! idx)) \<le> L")
      case True
      have "scan_members comb L r (chunk @ [idx], insert idx used, running + split_len (comb ! idx)) =
         (let ms = scan_spec comb L (filter (\<lambda>j. j \<notin> used) (map fst r)) (running + split_len (comb ! idx))
          in ((chunk @ [idx]) @ ms, insert idx used \<union> set ms,
              running + split_len (comb ! idx) + words_of comb ms))"
        using Cons.IH[OF d, of "chunk @ [idx]" "insert idx used" "running + split_len (comb ! idx)"]
        by (simp only: f)
      then show ?thesis
        using False True by (simp add: x Let_def words_of_def)
    next
      case nofit: False
      then show ?thesis
        using False Cons.IH[OF d, of chunk used running]
        by (simp add: x Let_def words_of_def)
    qed
  qed
qed

lemma scan_spec_subset: "set (scan_spec comb L cands running) \<subseteq> set cands"
  by (induction cands arbitrary: running) (auto simp: Let_def split: if_splits)

lemma scan_spec_distinct: "distinct cands \<Longrightarrow> distinct (scan_spec comb L cands running)"
proof (induction cands arbitrary: running)
  case Nil
  then show ?case by simp
next
  case (Cons c cands)
  then have "c \<notin> set (scan_spec comb L cands r)" for r
    using scan_spec_subset[of comb L cands r] by auto
  then show ?case using Cons by (simp add: Let_def)
qed

lemma scan_spec_budget:
  "scan_spec comb L cands running \<noteq> [] \<Longrightarrow>
   int running + int (words_of comb (scan_spec comb L cands running)) \<le> L"
proof (induction cands arbitrary: running)
  case Nil
  then show ?case by simp
next
  case (Cons c cands)
  show ?case
  proof (cases "int running + int (split_len (comb ! c)) \<le> L")
    case True
    show ?thesis
    proof (cases "L \<le> int (running + split_len (comb ! c)) \<or>
                  scan_spec comb L cands (running + split_len (comb ! c)) = []")
      case True
      then show ?thesis
        using \<open>int running + int (split_len (comb ! c)) \<le> L\<close>
        by (auto simp: Let_def words_of_def)
    next
      case False
      then show ?thesis
        using Cons.IH[of "running + split_len (comb ! c)"] True
        by (simp add: Let_def words_of_def)
    qed
  next
    case False
    then show ?thesis
      using Cons.IH[of running] Cons.prems by (simp add: Let_def split: if_splits)
  qed
qed

lemma scan_spec_head:
  assumes "c0 \<notin> set cands"
  shows "j \<in> set cands \<Longrightarrow>
     j \<in> set (scan_spec comb L (c0 # cands) r0) \<longleftrightarrow>
     \<not> L \<le> int (if int r0 + int (split_len (comb ! c0)) \<le> L then r0 + split_len (comb ! c0) else r0) \<and>
     j \<in> set (scan_spec comb L cands
                (if int r0 + int (split_len (comb ! c0)) \<le> L then r0 + split_len (comb ! c0) else r0))"
  using assms by (auto simp: Let_def)

lemma scan_spec_head_member:
  "c0 \<notin> set cands \<Longrightarrow>
   c0 \<in> set (scan_spec comb L (c0 # cands) r0) \<longleftrightarrow> int r0 + int (split_len (comb ! c0)) \<le> L"
  using scan_spec_subset[of comb L cands] by (auto simp: Let_def)

lemma scan_spec_filter:
  "distinct cands \<Longrightarrow>
   filter (\<lambda>j. j \<in> set (scan_spec comb L cands r0)) cands = scan_spec comb L cands r0"
proof (induction cands arbitrary: r0)
  case Nil
  then show ?case by simp
next
  case (Cons c0 cands)
  have nin: "c0 \<notin> set cands" and d: "distinct cands"
    using Cons.prems by simp_all
  define later where "later = (if int r0 + int (split_len (comb ! c0)) \<le> L
      then (if L \<le> int (r0 + split_len (comb ! c0)) then []
            else scan_spec comb L cands (r0 + split_len (comb ! c0)))
      else (if L \<le> int r0 then [] else scan_spec comb L cands r0))"
  have later: "filter (\<lambda>j. j \<in> set later) cands = later"
    using Cons.IH[OF d] by (simp add: later_def)
  have sub: "set later \<subseteq> set cands"
    using scan_spec_subset[of comb L cands] by (auto simp: later_def)
  then have c0: "c0 \<notin> set later"
    using nin by auto
  show ?case
  proof (cases "int r0 + int (split_len (comb ! c0)) \<le> L")
    case True
    then have s: "scan_spec comb L (c0 # cands) r0 = c0 # later"
      unfolding scan_spec_unfold later_def by simp
    have "filter (\<lambda>j. j \<in> set (c0 # later)) cands = filter (\<lambda>j. j \<in> set later) cands"
      by (rule filter_cong) (use nin in auto)
    then show ?thesis
      unfolding s using later by simp
  next
    case False
    then have s: "scan_spec comb L (c0 # cands) r0 = later"
      unfolding scan_spec_unfold later_def by simp
    show ?thesis
      unfolding s using later c0 by simp
  qed
qed

lemma accepted_words_Cons:
  "accepted_words comb ms (c0 # p) =
     (if c0 \<in> set ms then split_len (comb ! c0) else 0) + accepted_words comb ms p"
  by (simp add: accepted_words_def words_of_def)

lemma accepted_words_cong:
  "(\<And>j. j \<in> set p \<Longrightarrow> j \<in> set ms \<longleftrightarrow> j \<in> set ms') \<Longrightarrow>
   accepted_words comb ms p = accepted_words comb ms' p"
  unfolding accepted_words_def by (rule arg_cong[where f = "words_of comb"]) (rule filter_cong, auto)

lemma scan_spec_rule:
  "distinct (pre @ c # post) \<Longrightarrow>
   (if (\<exists>k. 0 < k \<and> k \<le> length pre \<and>
          L \<le> int r0 + int (accepted_words comb (scan_spec comb L (pre @ c # post) r0) (take k pre)))
    then c \<notin> set (scan_spec comb L (pre @ c # post) r0)
    else (c \<in> set (scan_spec comb L (pre @ c # post) r0) \<longleftrightarrow>
          int r0 + int (accepted_words comb (scan_spec comb L (pre @ c # post) r0) pre) +
            int (split_len (comb ! c)) \<le> L))"
proof (induction pre arbitrary: r0)
  case Nil
  then have "c \<notin> set post" by simp
  then show ?case
    using scan_spec_head_member[of c post comb L r0]
    by (simp add: accepted_words_def words_of_def)
next
  case (Cons c0 pre)
  let ?cands = "pre @ c # post"
  have nin: "c0 \<notin> set ?cands" and d: "distinct ?cands" and ne: "c \<noteq> c0"
    using Cons.prems by auto
  define fits where "fits = (int r0 + int (split_len (comb ! c0)) \<le> L)"
  define r' where "r' = (if fits then r0 + split_len (comb ! c0) else r0)"
  define later where "later = (if L \<le> int r' then [] else scan_spec comb L ?cands r')"
  define ms where "ms = scan_spec comb L (c0 # ?cands) r0"
  have ms: "ms = (if fits then c0 # later else later)"
    unfolding ms_def scan_spec_unfold fits_def later_def r'_def by simp
  have sub: "set later \<subseteq> set ?cands"
    using scan_spec_subset[of comb L ?cands r'] by (auto simp: later_def)
  have c0_in: "c0 \<in> set ms \<longleftrightarrow> fits"
    using sub nin by (auto simp: ms)
  have mem: "j \<in> set ms \<longleftrightarrow> j \<in> set later" if "j \<in> set ?cands" for j
    using that nin by (auto simp: ms)
  have aw: "int r0 + int (accepted_words comb ms (c0 # p)) = int r' + int (accepted_words comb later p)"
    if "set p \<subseteq> set ?cands" for p
  proof -
    have "accepted_words comb ms p = accepted_words comb later p"
      by (rule accepted_words_cong) (use that mem in auto)
    then show ?thesis
      by (simp add: accepted_words_Cons c0_in r'_def)
  qed
  have take_sub: "set (take k pre) \<subseteq> set ?cands" for k
    using set_take_subset[of k pre] by auto
  have reached: "(\<exists>k. 0 < k \<and> k \<le> length (c0 # pre) \<and>
          L \<le> int r0 + int (accepted_words comb ms (take k (c0 # pre)))) \<longleftrightarrow>
        (L \<le> int r' \<or> (\<exists>k. 0 < k \<and> k \<le> length pre \<and>
          L \<le> int r' + int (accepted_words comb later (take k pre))))"
    (is "?A \<longleftrightarrow> ?B")
  proof
    assume ?A
    then obtain k where k: "0 < k" "k \<le> Suc (length pre)"
      "L \<le> int r0 + int (accepted_words comb ms (take k (c0 # pre)))"
      by auto
    then obtain k' where k': "k = Suc k'" by (cases k) auto
    then have "L \<le> int r' + int (accepted_words comb later (take k' pre))"
      using k(3) aw[OF take_sub[of k']] by simp
    then show ?B
      using k(2) k' by (cases k') (auto simp: accepted_words_def words_of_def)
  next
    assume ?B
    then show ?A
    proof
      assume "L \<le> int r'"
      then have "L \<le> int r0 + int (accepted_words comb ms (take 1 (c0 # pre)))"
        using aw[of "[]"] by simp
      then show ?A by (intro exI[of _ 1]) simp
    next
      assume "\<exists>k. 0 < k \<and> k \<le> length pre \<and> L \<le> int r' + int (accepted_words comb later (take k pre))"
      then obtain k where k: "0 < k" "k \<le> length pre"
        "L \<le> int r' + int (accepted_words comb later (take k pre))" by auto
      then have "L \<le> int r0 + int (accepted_words comb ms (take (Suc k) (c0 # pre)))"
        using aw[OF take_sub[of k]] by simp
      then show ?A using k(2) by (intro exI[of _ "Suc k"]) simp
    qed
  qed
  have total: "int r0 + int (accepted_words comb ms (c0 # pre)) = int r' + int (accepted_words comb later pre)"
    by (rule aw) auto
  have c_mem: "c \<in> set ms \<longleftrightarrow> c \<in> set later"
    by (rule mem) simp
  show ?case
  proof (cases "L \<le> int r'")
    case True
    then have "later = []" by (simp add: later_def)
    then have "c \<notin> set ms" using c_mem by simp
    moreover have "\<exists>k. 0 < k \<and> k \<le> length (c0 # pre) \<and>
          L \<le> int r0 + int (accepted_words comb ms (take k (c0 # pre)))"
      using reached True by blast
    ultimately have "if (\<exists>k. 0 < k \<and> k \<le> length (c0 # pre) \<and>
          L \<le> int r0 + int (accepted_words comb ms (take k (c0 # pre))))
       then c \<notin> set ms
       else (c \<in> set ms \<longleftrightarrow>
          int r0 + int (accepted_words comb ms (c0 # pre)) + int (split_len (comb ! c)) \<le> L)"
      by simp
    from this[unfolded ms_def] show ?thesis
      unfolding append_Cons .
  next
    case False
    then have later_eq: "later = scan_spec comb L ?cands r'"
      by (simp add: later_def)
    have IH: "if (\<exists>k. 0 < k \<and> k \<le> length pre \<and>
          L \<le> int r' + int (accepted_words comb later (take k pre)))
       then c \<notin> set later
       else (c \<in> set later \<longleftrightarrow>
          int r' + int (accepted_words comb later pre) + int (split_len (comb ! c)) \<le> L)"
      using Cons.IH[OF d, of r'] unfolding later_eq .
    have "if (\<exists>k. 0 < k \<and> k \<le> length (c0 # pre) \<and>
          L \<le> int r0 + int (accepted_words comb ms (take k (c0 # pre))))
       then c \<notin> set ms
       else (c \<in> set ms \<longleftrightarrow>
          int r0 + int (accepted_words comb ms (c0 # pre)) + int (split_len (comb ! c)) \<le> L)"
      unfolding reached total c_mem using IH False by simp
    from this[unfolded ms_def] show ?thesis
      unfolding append_Cons .
  qed
qed

lemma limit_reached_iff:
  "limit_reached comb L ms pre \<longleftrightarrow>
   (\<exists>k. 0 < k \<and> k \<le> length pre \<and> L \<le> int 0 + int (accepted_words comb ms (take k pre)))"
proof -
  have "k \<in> {1..<Suc (length pre)} \<longleftrightarrow> 0 < k \<and> k \<le> length pre" for k
    by auto
  then show ?thesis
    unfolding limit_reached_def list_ex_iff set_upt Bex_def by simp
qed

lemma scan_spec_procedure:
  assumes "distinct cands" "cands = pre @ c # post"
  shows "if limit_reached comb L (scan_spec comb L cands 0) pre
         then c \<notin> set (scan_spec comb L cands 0)
         else (c \<in> set (scan_spec comb L cands 0) \<longleftrightarrow>
               int (accepted_words comb (scan_spec comb L cands 0) pre) + int (split_len (comb ! c)) \<le> L)"
  using scan_spec_rule[of pre c post L 0 comb] assms
  unfolding limit_reached_iff by simp

lemma anchor_step_members_spec:
  "anchor_step_members cs comb embs L (chunks, used) a =
     (let ms = scan_spec comb L
                 (filter (\<lambda>j. j \<notin> used) (map fst (ranked_candidates cs embs (embs ! a)))) 0
      in (if ms \<noteq> [] then chunks @ [ms] else chunks, used \<union> set ms))"
  by (simp add: anchor_step_members_def scan_members_spec[OF ranked_indices(1)] Let_def)

lemma scan_texts:
  "scan comb L r (map (\<lambda>i. comb ! i) chunk, used, running) =
   (case scan_members comb L r (chunk, used, running) of
      (chunk', used', running') \<Rightarrow> (map (\<lambda>i. comb ! i) chunk', used', running'))"
proof (induction r arbitrary: chunk used running)
  case Nil
  then show ?case by simp
next
  case (Cons x r)
  obtain idx sim where x: "x = (idx, sim)" by (cases x) auto
  show ?case
    using Cons[of chunk used running]
      Cons[of "chunk @ [idx]" "insert idx used" "running + split_len (comb ! idx)"]
    by (simp add: x Let_def)
qed

lemma anchor_step_texts:
  "anchor_step cs comb embs L (map (chunk_text comb) chunks, used) a =
   (case anchor_step_members cs comb embs L (chunks, used) a of
      (chunks', used') \<Rightarrow> (map (chunk_text comb) chunks', used'))"
  using scan_texts[of comb L "ranked_candidates cs embs (embs ! a)" "[]" used 0]
  by (auto simp add: anchor_step_def anchor_step_members_def chunk_text_def Let_def split: prod.splits)

text \<open>
  C4. For an anchor \<open>a\<close>, the ranking lists every window index once, with its similarity
  to the embedding of \<open>a\<close>, by descending similarity and, among equal similarities, by
  ascending index. The candidates are the indices of the ranking not yet used, in that
  order, and the members of the anchor's chunk are candidates in that order. A candidate
  looked at before the running total has reached the limit is accepted iff its word count
  keeps the total at or below the limit; once the total has reached or exceeded the limit
  after a candidate, no later candidate is accepted. A rejected candidate leaves the total
  unchanged, so it does not end the scan by itself. The chunk is emitted (as members and as
  text) iff it has a member.
\<close>

theorem anchor_scan_procedure:
  assumes "a < length comb"
    and "ranked = ranked_candidates cosine_similarity (map encode comb) (map encode comb ! a)"
    and "candidates = filter (\<lambda>j. j \<notin> used) (map fst ranked)"
  shows "sorted_wrt ranks_before ranked \<and>
         distinct (map fst ranked) \<and>
         set ranked = {(j, cosine_similarity (encode (comb ! a)) (encode (comb ! j))) | j. j < length comb} \<and>
         (\<exists>members.
            anchor_step_members cosine_similarity comb (map encode comb) chunk_limit (chunks, used) a =
              (if members \<noteq> [] then chunks @ [members] else chunks, used \<union> set members) \<and>
            anchor_step cosine_similarity comb (map encode comb) chunk_limit
                (map (chunk_text comb) chunks, used) a =
              (if members \<noteq> [] then map (chunk_text comb) chunks @ [chunk_text comb members]
               else map (chunk_text comb) chunks, used \<union> set members) \<and>
            members = filter (\<lambda>j. j \<in> set members) candidates \<and>
            (\<forall>pre c post. candidates = pre @ c # post \<longrightarrow>
               (if limit_reached comb chunk_limit members pre then c \<notin> set members
                else (c \<in> set members \<longleftrightarrow>
                      int (accepted_words comb members pre) + int (split_len (comb ! c))
                        \<le> chunk_limit))))"
proof -
  define members where "members = scan_spec comb chunk_limit candidates 0"
  have d: "distinct candidates"
    unfolding assms(3,2) by (intro distinct_filter ranked_indices(1))
  have step: "anchor_step_members cosine_similarity comb (map encode comb) chunk_limit (chunks, used) a =
              (if members \<noteq> [] then chunks @ [members] else chunks, used \<union> set members)"
    unfolding anchor_step_members_spec members_def assms(3,2) by (simp add: Let_def)
  have texts: "anchor_step cosine_similarity comb (map encode comb) chunk_limit
                (map (chunk_text comb) chunks, used) a =
              (if members \<noteq> [] then map (chunk_text comb) chunks @ [chunk_text comb members]
               else map (chunk_text comb) chunks, used \<union> set members)"
    unfolding anchor_step_texts step by simp
  have order: "members = filter (\<lambda>j. j \<in> set members) candidates"
    unfolding members_def using scan_spec_filter[OF d] by simp
  have rule: "\<forall>pre c post. candidates = pre @ c # post \<longrightarrow>
               (if limit_reached comb chunk_limit members pre then c \<notin> set members
                else (c \<in> set members \<longleftrightarrow>
                      int (accepted_words comb members pre) + int (split_len (comb ! c))
                        \<le> chunk_limit))"
    unfolding members_def using scan_spec_procedure[OF d] by blast
  have "sorted_wrt ranks_before ranked" "distinct (map fst ranked)"
    unfolding assms(2) by (rule ranked_sorted, rule ranked_indices(1))
  moreover have "set ranked =
      {(j, cosine_similarity (encode (comb ! a)) (encode (comb ! j))) | j. j < length comb}"
    unfolding assms(2) by (rule ranked_set_encode[OF assms(1)])
  ultimately show ?thesis
    using step texts order rule by blast
qed

theorem anchor_scan_procedure_witness:
  "(0::nat) < length comb3 \<and>
   ranked_candidates same_text (map text_embedding comb3) (map text_embedding comb3 ! 0) =
     [(0, 1), (1, 0), (2, 0)] \<and>
   sorted_wrt ranks_before [(0, 1), (1, 0), (2, 0)] \<and>
   anchor_step_members same_text comb3 (map text_embedding comb3) 1 ([], {}) 0 = ([[1]], {1}) \<and>
   0 \<notin> set [1::nat] \<and> \<not> limit_reached comb3 1 [1] [0] \<and> 1 \<in> set [1::nat] \<and>
   int (accepted_words comb3 [1] [0]) + int (split_len (comb3 ! 1)) \<le> 1 \<and>
   limit_reached comb3 1 [1] [0, 1] \<and> 2 \<notin> set [1::nat]"
proof -
  have h: "(0::nat) < length comb3"
    by (simp add: comb3_def)
  have r: "ranked_candidates same_text (map text_embedding comb3) (map text_embedding comb3 ! 0) =
     [(0, 1), (1, 0), (2, 0)]"
    by code_simp
  have c: "[0, 1, 2] = filter (\<lambda>j. j \<notin> {}) (map fst [(0::nat, 1::real), (1, 0), (2, 0)])"
    by simp
  have e: "anchor_step_members same_text comb3 (map text_embedding comb3) 1 ([], {}) 0 = ([[1]], {1})"
    by code_simp
  note t = anchor_scan_procedure[OF h r[symmetric] c, where chunk_limit = 1 and chunks = "[]"]
  have s: "sorted_wrt ranks_before [(0, 1), (1, 0), (2, 0)]"
    using t by blast
  obtain members where m:
    "anchor_step_members same_text comb3 (map text_embedding comb3) 1 ([], {}) 0 =
       (if members \<noteq> [] then [] @ [members] else [], {} \<union> set members)"
    "\<forall>pre c post. [0, 1, 2] = pre @ c # post \<longrightarrow>
       (if limit_reached comb3 1 members pre then c \<notin> set members
        else (c \<in> set members \<longleftrightarrow>
              int (accepted_words comb3 members pre) + int (split_len (comb3 ! c)) \<le> 1))"
    using t by blast
  have members: "members = [1]"
    using m(1) unfolding e by (auto split: if_splits)
  have "[0, 1, 2] = [0] @ 1 # [2::nat]" by simp
  then have one: "if limit_reached comb3 1 [1] [0] then 1 \<notin> set [1::nat]
        else (1 \<in> set [1::nat] \<longleftrightarrow>
              int (accepted_words comb3 [1] [0]) + int (split_len (comb3 ! 1)) \<le> 1)"
    using m(2) unfolding members by blast
  have "[0, 1, 2] = [0, 1] @ 2 # ([]::nat list)" by simp
  then have two: "if limit_reached comb3 1 [1] [0, 1] then 2 \<notin> set [1::nat]
        else (2 \<in> set [1::nat] \<longleftrightarrow>
              int (accepted_words comb3 [1] [0, 1]) + int (split_len (comb3 ! 2)) \<le> 1)"
    using m(2) unfolding members by blast
  have reached: "limit_reached comb3 1 [1] [0, 1]"
    by code_simp
  have "\<not> limit_reached comb3 1 [1] [0] \<and>
        int (accepted_words comb3 [1] [0]) + int (split_len (comb3 ! 1)) \<le> 1"
    using one by (auto split: if_splits)
  moreover have "2 \<notin> set [1::nat]"
    using two reached by simp
  ultimately show ?thesis
    using h r s e reached by simp
qed


section \<open>Properties of the anchor chunker: the chunks\<close>

lemma anchor_inv_step:
  assumes "anchor_inv comb L st" "length embs = length comb"
  shows "anchor_inv comb L (anchor_step_members cs comb embs L st a)"
proof -
  obtain chunks used where st: "st = (chunks, used)" by (cases st) auto
  let ?cands = "filter (\<lambda>j. j \<notin> used) (map fst (ranked_candidates cs embs (embs ! a)))"
  let ?ms = "scan_spec comb L ?cands 0"
  have inv: "distinct (concat chunks)" "set (concat chunks) \<subseteq> used" "used \<subseteq> {0..<length comb}"
    "[] \<notin> set chunks" "\<forall>c \<in> set chunks. int (words_of comb c) \<le> L"
    using assms(1) by (simp_all add: anchor_inv_def st)
  have sub: "set ?ms \<subseteq> {0..<length comb} - used"
    using scan_spec_subset[of comb L ?cands 0] ranked_indices(2)[of cs embs "embs ! a"] assms(2)
    by auto
  have dist: "distinct ?ms"
    by (intro scan_spec_distinct distinct_filter ranked_indices(1))
  have budget: "?ms \<noteq> [] \<Longrightarrow> int (words_of comb ?ms) \<le> L"
    using scan_spec_budget[of comb L ?cands 0] by simp
  show ?thesis
  proof (cases "?ms = []")
    case True
    then show ?thesis
      using inv by (simp add: st anchor_step_members_spec anchor_inv_def)
  next
    case False
    have "set (concat chunks) \<inter> set ?ms = {}"
      using sub inv(2) by auto
    then show ?thesis
      using False inv sub dist budget
      by (auto simp add: st anchor_step_members_spec anchor_inv_def Let_def)
  qed
qed

lemma anchor_inv_fold:
  assumes "anchor_inv comb L st" "length embs = length comb"
  shows "anchor_inv comb L (foldl (anchor_step_members cs comb embs L) st anchors)"
  using assms(1)
  by (induction anchors arbitrary: st) (simp_all add: anchor_inv_step[OF _ assms(2)])

lemma anchor_fold_texts:
  "foldl (anchor_step cs comb embs L) (map (chunk_text comb) chunks, used) anchors =
   (case foldl (anchor_step_members cs comb embs L) (chunks, used) anchors of
      (chunks', used') \<Rightarrow> (map (chunk_text comb) chunks', used'))"
proof (induction anchors arbitrary: chunks used)
  case Nil
  then show ?case by simp
next
  case (Cons a anchors)
  obtain chunks' used' where s: "anchor_step_members cs comb embs L (chunks, used) a = (chunks', used')"
    by (cases "anchor_step_members cs comb embs L (chunks, used) a") auto
  show ?case
    using Cons[of chunks' used'] by (simp add: anchor_step_texts s)
qed

lemma semantic_cluster_chunking_texts:
  "semantic_cluster_chunking enc cs comb stride L =
   (case semantic_cluster_chunking_members enc cs comb stride L of
      Inl e \<Rightarrow> Inl e
    | Inr ms \<Rightarrow> Inr (map (chunk_text comb) ms))"
  using anchor_fold_texts[of cs comb "map enc comb" L "[]" "{}"]
  by (simp add: semantic_cluster_chunking_def semantic_cluster_chunking_members_def
        split: sum.splits prod.splits)

lemma semantic_cluster_chunking_members_inv:
  "semantic_cluster_chunking_members enc cs comb stride L = Inr ms \<Longrightarrow>
   \<exists>used. anchor_inv comb L (ms, used)"
proof -
  assume r: "semantic_cluster_chunking_members enc cs comb stride L = Inr ms"
  then obtain anchors where a: "py_range_step 0 (int (length comb)) stride = Inr anchors"
    by (auto simp: semantic_cluster_chunking_members_def split: sum.splits)
  let ?st = "foldl (anchor_step_members cs comb (map enc comb) L) ([], {}) (map nat anchors)"
  have "anchor_inv comb L ?st"
    by (rule anchor_inv_fold) (simp_all add: anchor_inv_def)
  moreover have "ms = fst ?st"
    using r a by (simp add: semantic_cluster_chunking_members_def)
  ultimately show ?thesis
    by (cases ?st) auto
qed

lemma cluster_fails_iff:
  "semantic_cluster_chunking_members enc cs comb stride L = Inl e \<longleftrightarrow> stride = 0 \<and> e = ValueError"
  by (auto simp: semantic_cluster_chunking_members_def py_range_step_def split: sum.splits)

lemma chunks_pairwise_disjoint:
  assumes "distinct (concat ms)" "[] \<notin> set ms" "i < j" "j < length ms"
  shows "set (ms ! i) \<inter> set (ms ! j) = {}"
proof -
  have "distinct ms"
    using assms(1,2) by (simp add: distinct_concat_iff)
  then have "ms ! i \<noteq> ms ! j"
    using assms(3,4) by (simp add: nth_eq_iff_index_eq)
  then show ?thesis
    using assms by (simp add: distinct_concat_iff)
qed

text \<open>
  C2. For every list of windows, any stride and any word limit, the member indices of
  the chunks that the anchor chunker emits are pairwise disjoint (no index occurs twice
  anywhere in the chunks) and are window indices; the call fails only for a zero stride,
  and then emits nothing. Their union can be a strict subset of the index range: with the
  windows \<open>a b\<close>, \<open>c\<close>, \<open>d\<close>, stride 5 and limit 1 the only chunk is window 1.
\<close>

theorem anchor_chunks_disjoint:
  "(case semantic_cluster_chunking_members encode cosine_similarity comb anchor_stride chunk_limit of
      Inl e \<Rightarrow> anchor_stride = 0 \<and> e = ValueError
    | Inr ms \<Rightarrow>
        semantic_cluster_chunking encode cosine_similarity comb anchor_stride chunk_limit =
          Inr (map (chunk_text comb) ms) \<and>
        distinct (concat ms) \<and>
        (\<forall>i j. i < j \<and> j < length ms \<longrightarrow> set (ms ! i) \<inter> set (ms ! j) = {}) \<and>
        set (concat ms) \<subseteq> {0..<length comb}) \<and>
   (semantic_cluster_chunking_members text_embedding same_text comb3 5 1 = Inr [[1]] \<and>
    set (concat [[1::nat]]) \<subset> {0..<length comb3})"
proof
  show "case semantic_cluster_chunking_members encode cosine_similarity comb anchor_stride chunk_limit of
      Inl e \<Rightarrow> anchor_stride = 0 \<and> e = ValueError
    | Inr ms \<Rightarrow>
        semantic_cluster_chunking encode cosine_similarity comb anchor_stride chunk_limit =
          Inr (map (chunk_text comb) ms) \<and>
        distinct (concat ms) \<and>
        (\<forall>i j. i < j \<and> j < length ms \<longrightarrow> set (ms ! i) \<inter> set (ms ! j) = {}) \<and>
        set (concat ms) \<subseteq> {0..<length comb}"
  proof (cases "semantic_cluster_chunking_members encode cosine_similarity comb anchor_stride chunk_limit")
    case (Inl e)
    then have "anchor_stride = 0 \<and> e = ValueError"
      by (simp add: cluster_fails_iff)
    then show ?thesis using Inl by simp
  next
    case (Inr ms)
    then obtain used where "anchor_inv comb chunk_limit (ms, used)"
      using semantic_cluster_chunking_members_inv by blast
    then have d: "distinct (concat ms)" and ne: "[] \<notin> set ms"
      and sub: "set (concat ms) \<subseteq> {0..<length comb}"
      by (auto simp: anchor_inv_def)
    have "\<forall>i j. i < j \<and> j < length ms \<longrightarrow> set (ms ! i) \<inter> set (ms ! j) = {}"
      using chunks_pairwise_disjoint[OF d ne] by blast
    then show ?thesis
      using Inr d sub by (simp add: semantic_cluster_chunking_texts)
  qed
  have "semantic_cluster_chunking_members text_embedding same_text comb3 5 1 = Inr [[1]]"
    by code_simp
  moreover have "set (concat [[1::nat]]) \<subset> {0..<length comb3}"
  proof -
    have "set (concat [[1::nat]]) \<subseteq> {0..<length comb3}" "(0::nat) \<in> {0..<length comb3}"
      "(0::nat) \<notin> set (concat [[1::nat]])"
      by (simp_all add: comb3_def)
    then show ?thesis by blast
  qed
  ultimately show "semantic_cluster_chunking_members text_embedding same_text comb3 5 1 = Inr [[1]] \<and>
    set (concat [[1::nat]]) \<subset> {0..<length comb3}"
    by simp
qed

theorem anchor_chunks_disjoint_witness:
  "semantic_cluster_chunking_members text_embedding same_text comb3 2 3 = Inr [[0, 1], [2]] \<and>
   semantic_cluster_chunking text_embedding same_text comb3 2 3 = Inr (map (chunk_text comb3) [[0, 1], [2]]) \<and>
   distinct (concat [[0, 1], [2::nat]]) \<and>
   set ([[0, 1], [2::nat]] ! 0) \<inter> set ([[0, 1], [2]] ! 1) = {}"
proof -
  have e: "semantic_cluster_chunking_members text_embedding same_text comb3 2 3 = Inr [[0, 1], [2]]"
    by code_simp
  have t: "semantic_cluster_chunking text_embedding same_text comb3 2 3 = Inr (map (chunk_text comb3) [[0, 1], [2]]) \<and>
        distinct (concat [[0, 1], [2::nat]]) \<and>
        (\<forall>i j. i < j \<and> j < length [[0, 1], [2::nat]] \<longrightarrow>
           set ([[0, 1], [2::nat]] ! i) \<inter> set ([[0, 1], [2]] ! j) = {}) \<and>
        set (concat [[0, 1], [2::nat]]) \<subseteq> {0..<length comb3}"
    using anchor_chunks_disjoint[where encode = text_embedding and cosine_similarity = same_text
        and comb = comb3 and anchor_stride = 2 and chunk_limit = 3, THEN conjunct1]
    unfolding e sum.case by assumption
  have "(0::nat) < 1 \<and> 1 < length [[0, 1], [2::nat]]"
    by simp
  then have "set ([[0, 1], [2::nat]] ! 0) \<inter> set ([[0, 1], [2]] ! 1) = {}"
    using t by blast
  then show ?thesis
    using e t by blast
qed


section \<open>The anchor's own window\<close>

lemma ranked_prefix_used:
  assumes a: "a < length comb"
    and worse: "\<forall>j < length comb. j \<notin> used \<and> j \<noteq> a \<longrightarrow>
           cs (enc (comb ! a)) (enc (comb ! j)) < cs (enc (comb ! a)) (enc (comb ! a)) \<or>
           (cs (enc (comb ! a)) (enc (comb ! j)) = cs (enc (comb ! a)) (enc (comb ! a)) \<and> a < j)"
    and split: "ranked_candidates cs (map enc comb) (map enc comb ! a) =
                pre @ (a, cs (enc (comb ! a)) (enc (comb ! a))) # post"
  shows "filter (\<lambda>j. j \<notin> used) (map fst pre) = []"
proof -
  let ?r = "ranked_candidates cs (map enc comb) (map enc comb ! a)"
  let ?sa = "cs (enc (comb ! a)) (enc (comb ! a))"
  have "fst x \<in> used" if x: "x \<in> set pre" for x
  proof (rule ccontr)
    assume nu: "fst x \<notin> used"
    have "x \<in> set ?r" using x split by simp
    then obtain j where j: "x = (j, cs (enc (comb ! a)) (enc (comb ! j)))" "j < length comb"
      unfolding ranked_set_encode[OF a] by blast
    have "distinct (map fst (pre @ (a, ?sa) # post))"
      using ranked_indices(1)[of cs "map enc comb" "map enc comb ! a"] split by simp
    then have "fst x \<noteq> a" using x by auto
    then have ja: "j \<noteq> a" using j(1) by simp
    have "sorted_wrt ranks_before (pre @ (a, ?sa) # post)"
      using ranked_sorted[of cs "map enc comb" "map enc comb ! a"] split by simp
    then have "ranks_before x (a, ?sa)"
      using x by (simp add: sorted_wrt_append)
    then have before: "cs (enc (comb ! a)) (enc (comb ! j)) > ?sa \<or>
        (cs (enc (comb ! a)) (enc (comb ! j)) = ?sa \<and> j < a)"
      by (simp add: ranks_before_def j(1))
    have "cs (enc (comb ! a)) (enc (comb ! j)) < ?sa \<or>
        (cs (enc (comb ! a)) (enc (comb ! j)) = ?sa \<and> a < j)"
      using worse j(2) ja nu by (simp add: j(1))
    then show False using before by auto
  qed
  then show ?thesis
    by (simp add: filter_empty_conv)
qed

lemma zero_example:
  "ranked_candidates cosine (map zero_embedding long_short) (map zero_embedding long_short ! 0) =
     [(0, 0), (1, 0)]"
  by (simp add: ranked_candidates_def cosine_def normalize_def dot_def zero_embedding_def long_short_def)

text \<open>
  C9, as stated, fails. Window 0 of \<open>x y z\<close>, \<open>w\<close> has three words: with limit 2 the scan
  of anchor 0, which starts with nothing used, rejects window 0 and accepts window 1 first.
  In \<open>p\<close>, \<open>q\<close>, \<open>q\<close> with stride 2 and limit 1, window 2 is unused when anchor 2 is
  scanned, but window 1 has the same embedding and the lower index, so it ranks first and
  is the only member of the chunk. An embedding of norm zero has similarity 0 to itself.
\<close>

theorem anchor_first_member_counterexample:
  "anchor_step_members same_text long_short (map text_embedding long_short) 2 ([], {}) 0 = ([[1]], {1}) \<and>
   semantic_cluster_chunking_members text_embedding same_text long_short 5 2 = Inr [[1]] \<and>
   semantic_cluster_chunking text_embedding same_text long_short 5 2 = Inr [''w''] \<and>
   anchor_step_members same_text pqq (map text_embedding pqq) 1 ([[0]], {0}) 2 = ([[0], [1]], {0, 1}) \<and>
   semantic_cluster_chunking_members text_embedding same_text pqq 2 1 = Inr [[0], [1]] \<and>
   semantic_cluster_chunking text_embedding same_text pqq 2 1 = Inr [''p'', ''q''] \<and>
   ranked_candidates cosine (map zero_embedding long_short) (map zero_embedding long_short ! 0) =
     [(0, 0), (1, 0)]"
proof -
  have "anchor_step_members same_text long_short (map text_embedding long_short) 2 ([], {}) 0 = ([[1]], {1})"
    by code_simp
  moreover have "semantic_cluster_chunking_members text_embedding same_text long_short 5 2 = Inr [[1]]"
    by code_simp
  moreover have "anchor_step_members same_text pqq (map text_embedding pqq) 1 ([[0]], {0}) 2 =
      ([[0], [1]], {0, 1})"
    by code_simp
  moreover have "semantic_cluster_chunking_members text_embedding same_text pqq 2 1 = Inr [[0], [1]]"
    by code_simp
  moreover have "semantic_cluster_chunking text_embedding same_text long_short 5 2 = Inr [''w'']"
    by code_simp
  moreover have "semantic_cluster_chunking text_embedding same_text pqq 2 1 = Inr [''p'', ''q'']"
    by code_simp
  ultimately show ?thesis
    using zero_example by blast
qed

lemma anchor_first_accepted:
  assumes "a < length comb" "a \<notin> used" "int (split_len (comb ! a)) \<le> chunk_limit"
    and "\<forall>j < length comb. j \<notin> used \<and> j \<noteq> a \<longrightarrow>
           cs (enc (comb ! a)) (enc (comb ! j)) < cs (enc (comb ! a)) (enc (comb ! a)) \<or>
           (cs (enc (comb ! a)) (enc (comb ! j)) = cs (enc (comb ! a)) (enc (comb ! a)) \<and> a < j)"
  shows "\<exists>rest used'.
            anchor_step_members cs comb (map enc comb) chunk_limit (chunks, used) a =
              (chunks @ [a # rest], used') \<and>
            anchor_step cs comb (map enc comb) chunk_limit (map (chunk_text comb) chunks, used) a =
              (map (chunk_text comb) chunks @ [chunk_text comb (a # rest)], used')"
proof -
  let ?r = "ranked_candidates cs (map enc comb) (map enc comb ! a)"
  let ?sa = "cs (enc (comb ! a)) (enc (comb ! a))"
  have own: "(a, ?sa) \<in> set ?r"
    unfolding ranked_set_encode[OF assms(1)] using assms(1) by blast
  obtain pre post where split: "?r = pre @ (a, ?sa) # post"
    using own by (meson split_list)
  have "filter (\<lambda>j. j \<notin> used) (map fst pre) = []"
    using ranked_prefix_used[OF assms(1) assms(4) split] .
  then have cands: "filter (\<lambda>j. j \<notin> used) (map fst ?r) =
      a # filter (\<lambda>j. j \<notin> used) (map fst post)"
    using assms(2) by (simp add: split)
  define rest where "rest = (if chunk_limit \<le> int (0 + split_len (comb ! a)) then []
       else scan_spec comb chunk_limit (filter (\<lambda>j. j \<notin> used) (map fst post)) (0 + split_len (comb ! a)))"
  have ms: "scan_spec comb chunk_limit (filter (\<lambda>j. j \<notin> used) (map fst ?r)) 0 = a # rest"
    unfolding cands scan_spec_unfold rest_def using assms(3) by simp
  have step: "anchor_step_members cs comb (map enc comb) chunk_limit (chunks, used) a =
              (chunks @ [a # rest], used \<union> set (a # rest))"
    unfolding anchor_step_members_spec ms by (simp add: Let_def)
  have "anchor_step cs comb (map enc comb) chunk_limit (map (chunk_text comb) chunks, used) a =
              (map (chunk_text comb) chunks @ [chunk_text comb (a # rest)], used \<union> set (a # rest))"
    unfolding anchor_step_texts step by simp
  then show ?thesis
    using step by blast
qed

text \<open>
  C9, amended. Every anchor index \<open>a\<close> is in its own ranking, with the similarity of its
  embedding to itself, which is 1 for the cosine of a vector that is not zero; this needs
  nothing of the state of the scan. The first window accepted into the chunk of anchor
  \<open>a\<close> is window \<open>a\<close> itself provided that, when the scan of \<open>a\<close> starts, window \<open>a\<close> is
  not used, its word count is at most the limit, and every other unused window ranks after
  it: its similarity to \<open>a\<close> is lower than that of \<open>a\<close> to itself, or equal with a
  higher index.
\<close>

theorem anchor_first_member:
  assumes "a < length comb"
  shows "(a, cosine_similarity (encode (comb ! a)) (encode (comb ! a))) \<in>
           set (ranked_candidates cosine_similarity (map encode comb) (map encode comb ! a)) \<and>
         (dot (vector (comb ! a)) (vector (comb ! a)) \<noteq> 0 \<longrightarrow>
            (a, 1) \<in> set (ranked_candidates cosine (map vector comb) (map vector comb ! a))) \<and>
         (a \<notin> used \<and> int (split_len (comb ! a)) \<le> chunk_limit \<and>
          (\<forall>j < length comb. j \<notin> used \<and> j \<noteq> a \<longrightarrow>
             cosine_similarity (encode (comb ! a)) (encode (comb ! j)) <
               cosine_similarity (encode (comb ! a)) (encode (comb ! a)) \<or>
             (cosine_similarity (encode (comb ! a)) (encode (comb ! j)) =
                cosine_similarity (encode (comb ! a)) (encode (comb ! a)) \<and> a < j)) \<longrightarrow>
          (\<exists>rest used'.
             anchor_step_members cosine_similarity comb (map encode comb) chunk_limit (chunks, used) a =
               (chunks @ [a # rest], used') \<and>
             anchor_step cosine_similarity comb (map encode comb) chunk_limit
                 (map (chunk_text comb) chunks, used) a =
               (map (chunk_text comb) chunks @ [chunk_text comb (a # rest)], used')))"
proof (intro conjI impI)
  show "(a, cosine_similarity (encode (comb ! a)) (encode (comb ! a))) \<in>
           set (ranked_candidates cosine_similarity (map encode comb) (map encode comb ! a))"
    unfolding ranked_set_encode[OF assms] using assms by blast
  show "(a, 1) \<in> set (ranked_candidates cosine (map vector comb) (map vector comb ! a))"
    if "dot (vector (comb ! a)) (vector (comb ! a)) \<noteq> 0"
    unfolding ranked_set_encode[OF assms] using assms cosine_self[OF that] by fastforce
  show "\<exists>rest used'.
             anchor_step_members cosine_similarity comb (map encode comb) chunk_limit (chunks, used) a =
               (chunks @ [a # rest], used') \<and>
             anchor_step cosine_similarity comb (map encode comb) chunk_limit
                 (map (chunk_text comb) chunks, used) a =
               (map (chunk_text comb) chunks @ [chunk_text comb (a # rest)], used')"
    if "a \<notin> used \<and> int (split_len (comb ! a)) \<le> chunk_limit \<and>
          (\<forall>j < length comb. j \<notin> used \<and> j \<noteq> a \<longrightarrow>
             cosine_similarity (encode (comb ! a)) (encode (comb ! j)) <
               cosine_similarity (encode (comb ! a)) (encode (comb ! a)) \<or>
             (cosine_similarity (encode (comb ! a)) (encode (comb ! j)) =
                cosine_similarity (encode (comb ! a)) (encode (comb ! a)) \<and> a < j))"
    using anchor_first_accepted[OF assms, of used chunk_limit cosine_similarity encode chunks] that
    by blast
qed

theorem anchor_first_member_witness:
  "(0::nat) < length comb3 \<and> 0 \<notin> ({}::nat set) \<and> int (split_len (comb3 ! 0)) \<le> 3 \<and>
   same_text (text_embedding (comb3 ! 0)) (text_embedding (comb3 ! 1)) <
     same_text (text_embedding (comb3 ! 0)) (text_embedding (comb3 ! 0)) \<and>
   same_text (text_embedding (comb3 ! 0)) (text_embedding (comb3 ! 2)) <
     same_text (text_embedding (comb3 ! 0)) (text_embedding (comb3 ! 0)) \<and>
   dot (axis_embedding (comb3 ! 0)) (axis_embedding (comb3 ! 0)) \<noteq> 0 \<and>
   (0, 1) \<in> set (ranked_candidates cosine (map axis_embedding comb3) (map axis_embedding comb3 ! 0)) \<and>
   anchor_step_members same_text comb3 (map text_embedding comb3) 3 ([], {}) 0 = ([[0, 1]], {0, 1}) \<and>
   (\<exists>rest used'.
      anchor_step_members same_text comb3 (map text_embedding comb3) 3 ([], {}) 0 =
        ([] @ [0 # rest], used'))"
proof -
  have h1: "(0::nat) < length comb3" and h2: "0 \<notin> ({}::nat set)"
    by (simp_all add: comb3_def)
  have h3: "int (split_len (comb3 ! 0)) \<le> 3"
    by code_simp
  have h4: "\<forall>j < length comb3. j \<notin> ({}::nat set) \<and> j \<noteq> 0 \<longrightarrow>
      same_text (text_embedding (comb3 ! 0)) (text_embedding (comb3 ! j)) <
        same_text (text_embedding (comb3 ! 0)) (text_embedding (comb3 ! 0)) \<or>
      (same_text (text_embedding (comb3 ! 0)) (text_embedding (comb3 ! j)) =
         same_text (text_embedding (comb3 ! 0)) (text_embedding (comb3 ! 0)) \<and> 0 < j)"
    by (auto simp: comb3_def same_text_def text_embedding_def nth_Cons split: nat.splits)
  have nz: "dot (axis_embedding (comb3 ! 0)) (axis_embedding (comb3 ! 0)) \<noteq> 0"
    by (simp add: dot_def axis_embedding_def comb3_def)
  have e: "anchor_step_members same_text comb3 (map text_embedding comb3) 3 ([], {}) 0 = ([[0, 1]], {0, 1})"
    by code_simp
  note t = anchor_first_member[where a = 0 and comb = comb3 and used = "{}" and chunk_limit = 3
      and cosine_similarity = same_text and encode = text_embedding
      and vector = axis_embedding and chunks = "[]", OF h1]
  have own: "(0, 1) \<in> set (ranked_candidates cosine (map axis_embedding comb3) (map axis_embedding comb3 ! 0))"
    using t[THEN conjunct2, THEN conjunct1, rule_format, OF nz] .
  have first: "\<exists>rest used'.
      anchor_step_members same_text comb3 (map text_embedding comb3) 3 ([], {}) 0 =
        ([] @ [0 # rest], used')"
    using t[THEN conjunct2, THEN conjunct2] h2 h3 h4 by blast
  have less: "same_text (text_embedding (comb3 ! 0)) (text_embedding (comb3 ! 1)) <
     same_text (text_embedding (comb3 ! 0)) (text_embedding (comb3 ! 0))"
    "same_text (text_embedding (comb3 ! 0)) (text_embedding (comb3 ! 2)) <
     same_text (text_embedding (comb3 ! 0)) (text_embedding (comb3 ! 0))"
    by (simp_all add: comb3_def same_text_def text_embedding_def)
  show ?thesis
    by (insert h1 h2 h3 less nz own e first, intro conjI)
qed


section \<open>The word budget\<close>

lemma split_from_space:
  "length (split_from w (x @ CHR '' '' # y)) = length (split_from w x) + length (split_from [] y)"
proof (induction x arbitrary: w)
  case Nil
  then show ?case by (simp add: is_space_def)
next
  case (Cons c x)
  then show ?case by simp
qed

lemma split_len_join: "split_len (join xs) = sum_list (map split_len xs)"
proof (induction xs rule: join.induct)
  case 1
  then show ?case by (simp add: split_len_def split_def)
next
  case (2 x)
  then show ?case by simp
next
  case (3 x y r)
  then show ?case
    using split_from_space[of "[]" x "join (y # r)"]
    by (simp add: split_len_def split_def)
qed

lemma split_len_chunk_text: "split_len (chunk_text comb c) = words_of comb c"
  by (simp add: chunk_text_def words_of_def split_len_join comp_def)

lemma member_words: "i \<in> set c \<Longrightarrow> split_len (comb ! i) \<le> words_of comb c"
  unfolding words_of_def by (induction c) auto

lemma words_of_snoc: "c \<noteq> [] \<Longrightarrow>
  words_of comb c = words_of comb (take (length c - 1) c) + split_len (comb ! (c ! (length c - 1)))"
proof -
  assume "c \<noteq> []"
  then have "c = take (length c - 1) c @ [c ! (length c - 1)]"
    by (metis append_butlast_last_id butlast_conv_take last_conv_nth)
  then have "words_of comb c = words_of comb (take (length c - 1) c @ [c ! (length c - 1)])"
    by simp
  then show ?thesis
    by (simp add: words_of_def)
qed

lemma chunk_text_single: "chunk_text comb [i] = comb ! i"
  by (simp add: chunk_text_def)

lemma anchor_members_budget:
  assumes "semantic_cluster_chunking_members enc cs comb stride L = Inr ms"
  shows "\<forall>c \<in> set ms. int (words_of comb c) \<le> L"
    and "\<forall>i < length comb. L < int (split_len (comb ! i)) \<longrightarrow> i \<notin> set (concat ms)"
proof -
  obtain used where "anchor_inv comb L (ms, used)"
    using semantic_cluster_chunking_members_inv[OF assms] by blast
  then show b: "\<forall>c \<in> set ms. int (words_of comb c) \<le> L"
    by (simp add: anchor_inv_def)
  show "\<forall>i < length comb. L < int (split_len (comb ! i)) \<longrightarrow> i \<notin> set (concat ms)"
  proof (intro allI impI notI)
    fix i assume i: "L < int (split_len (comb ! i))" and "i \<in> set (concat ms)"
    then obtain c where c: "c \<in> set ms" "i \<in> set c" by auto
    then have "int (split_len (comb ! i)) \<le> int (words_of comb c)"
      using member_words[of i c comb] by simp
    then show False using b c(1) i by force
  qed
qed

lemma sequential_over_limit_single:
  assumes i: "i < length comb" "L < int (split_len (comb ! i))"
    and ms: "semantic_chunking_members enc cs comb th (Some L) = Inr ms"
  shows "[i] \<in> set ms"
proof -
  have "comb \<noteq> []" using i by auto
  then obtain ms' where ms': "semantic_chunking_members enc cs comb th (Some L) = Inr ms'"
    and c': "concat ms' = [0..<length comb]"
    and a': "\<forall>c \<in> set ms'. \<forall>j. 0 < j \<and> j < length c \<longrightarrow>
              merges enc cs comb th (the_limit (Some L)) (take j c) (c ! j)"
    using semantic_chunking_members_facts[of comb enc cs th "Some L"] by blast
  have eq: "ms' = ms" using ms ms' by simp
  note c = c'[unfolded eq] and a = a'[unfolded eq]
  have "i \<in> set (concat ms)" using i(1) by (simp add: c)
  then obtain ch where ch: "ch \<in> set ms" "i \<in> set ch" by auto
  then have "ch \<noteq> []" by auto
  have "length ch = 1"
  proof (rule ccontr)
    assume "length ch \<noteq> 1"
    then have "0 < length ch - 1 \<and> length ch - 1 < length ch"
      using \<open>ch \<noteq> []\<close> by (cases ch) auto
    then have "merges enc cs comb th (the_limit (Some L))
                 (take (length ch - 1) ch) (ch ! (length ch - 1))"
      using a ch(1) by blast
    then have "int (words_of comb (take (length ch - 1) ch)) +
               int (split_len (comb ! (ch ! (length ch - 1)))) \<le> L"
      by (simp add: merges_def the_limit_def)
    then have "int (words_of comb ch) \<le> L"
      using words_of_snoc[OF \<open>ch \<noteq> []\<close>, of comb] by simp
    moreover have "int (split_len (comb ! i)) \<le> int (words_of comb ch)"
      using member_words[OF ch(2), of comb] by simp
    ultimately show False using i(2) by simp
  qed
  then have "ch = [i]"
    using ch(2) by (cases ch) auto
  then show ?thesis using ch(1) by simp
qed

text \<open>
  C10. Every string that the anchor chunker returns has at most \<open>chunk_limit\<close> words; the
  strings are the texts of the member lists, whose accumulated word counts are within the
  limit. Hence a window whose own word count exceeds the limit is a member of no anchor
  chunk, whereas the sequential chunker run with the same limit returns it as a chunk on
  its own: its index is a chunk of one member and its text is one of the returned strings.
\<close>

theorem anchor_budget_bound:
  "(case semantic_cluster_chunking encode cosine_similarity comb anchor_stride chunk_limit of
      Inl e \<Rightarrow> anchor_stride = 0
    | Inr chunks \<Rightarrow>
        (\<forall>t \<in> set chunks. int (split_len t) \<le> chunk_limit) \<and>
        (\<exists>ms. semantic_cluster_chunking_members encode cosine_similarity comb anchor_stride chunk_limit = Inr ms \<and>
              chunks = map (chunk_text comb) ms \<and>
              (\<forall>c \<in> set ms. int (words_of comb c) \<le> chunk_limit) \<and>
              (\<forall>i < length comb. chunk_limit < int (split_len (comb ! i)) \<longrightarrow>
                 i \<notin> set (concat ms)))) \<and>
   (\<forall>i < length comb. chunk_limit < int (split_len (comb ! i)) \<longrightarrow>
      (\<exists>ms chunks.
         semantic_chunking_members encode cosine_similarity comb threshold (Some chunk_limit) = Inr ms \<and>
         semantic_chunking encode cosine_similarity comb threshold (Some chunk_limit) = Inr chunks \<and>
         chunks = map (chunk_text comb) ms \<and> [i] \<in> set ms \<and> comb ! i \<in> set chunks))"
proof (rule conjI)
  show "case semantic_cluster_chunking encode cosine_similarity comb anchor_stride chunk_limit of
      Inl e \<Rightarrow> anchor_stride = 0
    | Inr chunks \<Rightarrow>
        (\<forall>t \<in> set chunks. int (split_len t) \<le> chunk_limit) \<and>
        (\<exists>ms. semantic_cluster_chunking_members encode cosine_similarity comb anchor_stride chunk_limit = Inr ms \<and>
              chunks = map (chunk_text comb) ms \<and>
              (\<forall>c \<in> set ms. int (words_of comb c) \<le> chunk_limit) \<and>
              (\<forall>i < length comb. chunk_limit < int (split_len (comb ! i)) \<longrightarrow>
                 i \<notin> set (concat ms)))"
  proof (cases "semantic_cluster_chunking_members encode cosine_similarity comb anchor_stride chunk_limit")
    case (Inl e)
    then have "anchor_stride = 0"
      by (simp add: cluster_fails_iff)
    moreover have "semantic_cluster_chunking encode cosine_similarity comb anchor_stride chunk_limit = Inl e"
      by (simp add: semantic_cluster_chunking_texts Inl)
    ultimately show ?thesis by simp
  next
    case (Inr ms)
    have tx: "semantic_cluster_chunking encode cosine_similarity comb anchor_stride chunk_limit =
          Inr (map (chunk_text comb) ms)"
      by (simp add: semantic_cluster_chunking_texts Inr)
    note b = anchor_members_budget[OF Inr]
    have "\<forall>t \<in> set (map (chunk_text comb) ms). int (split_len t) \<le> chunk_limit"
      using b(1) by (auto simp: split_len_chunk_text)
    then show ?thesis
      unfolding tx using Inr b by auto
  qed
  show "\<forall>i < length comb. chunk_limit < int (split_len (comb ! i)) \<longrightarrow>
      (\<exists>ms chunks.
         semantic_chunking_members encode cosine_similarity comb threshold (Some chunk_limit) = Inr ms \<and>
         semantic_chunking encode cosine_similarity comb threshold (Some chunk_limit) = Inr chunks \<and>
         chunks = map (chunk_text comb) ms \<and> [i] \<in> set ms \<and> comb ! i \<in> set chunks)"
  proof (intro allI impI)
    fix i assume i: "i < length comb" "chunk_limit < int (split_len (comb ! i))"
    then have "comb \<noteq> []" by auto
    then obtain ms where ms: "semantic_chunking_members encode cosine_similarity comb threshold (Some chunk_limit) = Inr ms"
      using semantic_chunking_members_facts[of comb encode cosine_similarity threshold "Some chunk_limit"] by blast
    have tx: "semantic_chunking encode cosine_similarity comb threshold (Some chunk_limit) =
          Inr (map (chunk_text comb) ms)"
      by (simp add: semantic_chunking_texts ms)
    have single: "[i] \<in> set ms"
      using sequential_over_limit_single[OF i ms] .
    then have "chunk_text comb [i] \<in> set (map (chunk_text comb) ms)"
      by simp
    then have "comb ! i \<in> set (map (chunk_text comb) ms)"
      by (simp only: chunk_text_single)
    then show "\<exists>ms chunks.
         semantic_chunking_members encode cosine_similarity comb threshold (Some chunk_limit) = Inr ms \<and>
         semantic_chunking encode cosine_similarity comb threshold (Some chunk_limit) = Inr chunks \<and>
         chunks = map (chunk_text comb) ms \<and> [i] \<in> set ms \<and> comb ! i \<in> set chunks"
      using ms tx single by blast
  qed
qed

theorem anchor_budget_bound_witness:
  "semantic_cluster_chunking text_embedding same_text long_short 5 2 = Inr [''w''] \<and>
   semantic_cluster_chunking_members text_embedding same_text long_short 5 2 = Inr [[1]] \<and>
   int (split_len ''w'') \<le> 2 \<and>
   (0::nat) < length long_short \<and> (2::int) < int (split_len (long_short ! 0)) \<and>
   0 \<notin> set (concat [[1::nat]]) \<and>
   semantic_chunking_members text_embedding same_text long_short (3 / 4) (Some 2) = Inr [[0], [1]] \<and>
   semantic_chunking text_embedding same_text long_short (3 / 4) (Some 2) = Inr [''x y z'', ''w''] \<and>
   long_short ! 0 \<in> set [''x y z'', ''w'']"
proof -
  have e: "semantic_cluster_chunking text_embedding same_text long_short 5 2 = Inr [''w'']"
    by code_simp
  have em: "semantic_cluster_chunking_members text_embedding same_text long_short 5 2 = Inr [[1]]"
    by code_simp
  have s: "semantic_chunking text_embedding same_text long_short (3 / 4) (Some 2) = Inr [''x y z'', ''w'']"
    by code_simp
  have sm: "semantic_chunking_members text_embedding same_text long_short (3 / 4) (Some 2) = Inr [[0], [1]]"
    by code_simp
  have h: "(0::nat) < length long_short" "(2::int) < int (split_len (long_short ! 0))"
    by code_simp+
  note t = anchor_budget_bound[where encode = text_embedding and cosine_similarity = same_text
        and comb = long_short and anchor_stride = 5 and chunk_limit = 2 and threshold = "3 / 4"]
  note t1 = t[THEN conjunct1, unfolded e sum.case em]
  note t2 = t[THEN conjunct2, rule_format, OF h, unfolded s sm]
  have w: "int (split_len ''w'') \<le> 2"
    using t1[THEN conjunct1] by simp
  obtain ms where ms: "Inr [[1]] = (Inr ms :: error + nat list list)"
    "\<forall>i < length long_short. 2 < int (split_len (long_short ! i)) \<longrightarrow> i \<notin> set (concat ms)"
    using t1[THEN conjunct2] by blast
  have "ms = [[1]]" using ms(1) by simp
  then have z: "0 \<notin> set (concat [[1::nat]])"
    using ms(2) h by blast
  have m: "long_short ! 0 \<in> set [''x y z'', ''w'']"
    using t2 by blast
  show ?thesis
    by (insert e em w h z sm s m, intro conjI)
qed


section \<open>Empty input and parameters out of range\<close>

lemma py_range_step_empty:
  "py_range_step 0 0 s = (if s = 0 then Inl ValueError else Inr [])"
proof -
  have "(s - 1) div s = 0" if "0 < s"
    using that by (intro div_pos_pos_trivial) simp_all
  moreover have "(- s - 1) div (- s) = 0" if "s < 0"
    using that by (intro div_pos_pos_trivial) simp_all
  ultimately show ?thesis
    by (simp add: py_range_step_def)
qed

text \<open>
  C6. On an empty list of windows the sequential chunker does not return an empty
  list of chunks: \<^verbatim>\<open>comb[0]\<close> raises \<^verbatim>\<open>IndexError\<close>, whatever the other arguments are. The
  anchor chunker returns the empty list on the same input, for every stride that
  \<^verbatim>\<open>range\<close> accepts.
\<close>

theorem empty_input_sequential_raises:
  "semantic_chunking encode cosine_similarity [] threshold chunk_limit = Inl IndexError \<and>
   semantic_cluster_chunking encode cosine_similarity [] anchor_stride limit =
     (if anchor_stride = 0 then Inl ValueError else Inr [])"
  by (simp add: semantic_chunking_def semantic_cluster_chunking_def py_range_step_empty)

lemma func_loop_negative:
  assumes "b < 0"
  shows "\<forall>i \<in> set is. 0 \<le> i \<Longrightarrow>
         func_loop ss b is combined = Inr (combined @ replicate (length is) [])"
proof (induction "is" arbitrary: combined)
  case Nil
  then show ?case by simp
next
  case (Cons i "is")
  then have i: "0 \<le> i" by simp
  have "py_range (i - min i b) (i + 1) = []"
    using assms i by (simp add: py_range_def min_def)
  moreover have "py_range (i + 1) (min (int (length ss)) (b + 1 + i)) = []"
    using assms i by (simp add: py_range_def min_def)
  ultimately show ?case
    using Cons by (simp add: replicate_append_same)
qed

lemma func_negative: "b < 0 \<Longrightarrow> func ss b = Inr (replicate (length ss) [])"
  using func_loop_negative[of b "map int [0..<length ss]" ss "[]"]
  by (simp add: func_def py_range_nat)

lemma semantic_chunking_returns:
  "comb \<noteq> [] \<Longrightarrow> \<exists>chunks. semantic_chunking enc cs comb th cl = Inr chunks"
  using semantic_chunking_members_facts[of comb enc cs th cl]
  by (auto simp: semantic_chunking_texts)

lemma cluster_negative_stride:
  "stride < 0 \<Longrightarrow> semantic_cluster_chunking enc cs comb stride L = Inr []"
proof -
  assume s: "stride < 0"
  have "(- int (length comb) - stride - 1) div (- stride) \<le> 0"
  proof (cases "- int (length comb) - stride - 1 < 0")
    case True
    then show ?thesis
      using s pos_imp_zdiv_neg_iff[of "- stride" "- int (length comb) - stride - 1"] by simp
  next
    case False
    then have "(- int (length comb) - stride - 1) div (- stride) = 0"
      using s by (intro div_pos_pos_trivial) simp_all
    then show ?thesis by simp
  qed
  then show ?thesis
    using s by (simp add: semantic_cluster_chunking_def py_range_step_def)
qed

text \<open>
  C7, as stated, fails: no argument is validated. A buffer size of \<open>-1\<close>, a threshold of
  2 with a word limit of \<open>-1\<close>, a word limit of 0 and a stride of \<open>-1\<close> all return normally.
\<close>

theorem no_parameter_validation_counterexample:
  "func abc (- 1) = Inr ['''', '''', ''''] \<and>
   semantic_chunking text_embedding same_text comb3 2 (Some (- 1)) = Inr [''a b'', ''c'', ''d''] \<and>
   semantic_cluster_chunking text_embedding same_text comb3 5 0 = Inr [] \<and>
   semantic_cluster_chunking text_embedding same_text comb3 (- 1) 512 = Inr []"
  by code_simp

text \<open>
  C7, amended. No parameter is validated and there is no error for an invalid one. With
  a negative buffer size \<open>func\<close> returns one empty window per sentence. The sequential
  chunker returns normally for every threshold and every word limit when there is at
  least one window. The anchor chunker returns normally for every word limit and every
  non-zero stride (the empty list when the stride is negative); a zero stride raises the
  \<^verbatim>\<open>ValueError\<close> of \<^verbatim>\<open>range\<close>.
\<close>

theorem no_parameter_validation:
  "(buffer_size < 0 \<longrightarrow> func ss buffer_size = Inr (replicate (length ss) [])) \<and>
   (comb \<noteq> [] \<longrightarrow>
      (\<exists>chunks. semantic_chunking encode cosine_similarity comb threshold chunk_limit = Inr chunks)) \<and>
   (anchor_stride < 0 \<longrightarrow>
      semantic_cluster_chunking encode cosine_similarity comb anchor_stride limit = Inr []) \<and>
   (0 < anchor_stride \<longrightarrow>
      (\<exists>chunks. semantic_cluster_chunking encode cosine_similarity comb anchor_stride limit = Inr chunks)) \<and>
   (anchor_stride = 0 \<longrightarrow>
      semantic_cluster_chunking encode cosine_similarity comb anchor_stride limit = Inl ValueError)"
proof (intro conjI impI)
  show "buffer_size < 0 \<Longrightarrow> func ss buffer_size = Inr (replicate (length ss) [])"
    by (rule func_negative)
  show "comb \<noteq> [] \<Longrightarrow>
      \<exists>chunks. semantic_chunking encode cosine_similarity comb threshold chunk_limit = Inr chunks"
    by (rule semantic_chunking_returns)
  show "anchor_stride < 0 \<Longrightarrow>
      semantic_cluster_chunking encode cosine_similarity comb anchor_stride limit = Inr []"
    by (rule cluster_negative_stride)
  show "0 < anchor_stride \<Longrightarrow>
      \<exists>chunks. semantic_cluster_chunking encode cosine_similarity comb anchor_stride limit = Inr chunks"
    by (simp add: semantic_cluster_chunking_def py_range_step_def)
  show "anchor_stride = 0 \<Longrightarrow>
      semantic_cluster_chunking encode cosine_similarity comb anchor_stride limit = Inl ValueError"
    by (simp add: semantic_cluster_chunking_def py_range_step_def)
qed

theorem no_parameter_validation_witness:
  "(- 2 :: int) < 0 \<and> func abc (- 2) = Inr (replicate (length abc) []) \<and>
   comb3 \<noteq> [] \<and> (\<exists>chunks. semantic_chunking text_embedding same_text comb3 (- 3) (Some 0) = Inr chunks) \<and>
   semantic_cluster_chunking text_embedding same_text comb3 (- 2) (- 7) = Inr [] \<and>
   (0::int) < 2 \<and> (\<exists>chunks. semantic_cluster_chunking text_embedding same_text comb3 2 (- 7) = Inr chunks) \<and>
   semantic_cluster_chunking text_embedding same_text comb3 0 (- 7) = Inl ValueError"
proof -
  have h: "(- 2 :: int) < 0" "comb3 \<noteq> []" "(0::int) < 2"
    by (simp_all add: comb3_def)
  note n = no_parameter_validation[where buffer_size = "- 2" and ss = abc and comb = comb3
      and encode = text_embedding and cosine_similarity = same_text and threshold = "- 3"
      and chunk_limit = "Some 0" and limit = "- 7" and anchor_stride = "- 2"]
  note p = no_parameter_validation[where buffer_size = "- 2" and ss = abc and comb = comb3
      and encode = text_embedding and cosine_similarity = same_text and threshold = "- 3"
      and chunk_limit = "Some 0" and limit = "- 7" and anchor_stride = 2]
  note z = no_parameter_validation[where buffer_size = "- 2" and ss = abc and comb = comb3
      and encode = text_embedding and cosine_similarity = same_text and threshold = "- 3"
      and chunk_limit = "Some 0" and limit = "- 7" and anchor_stride = 0]
  show ?thesis
    using h n p z by blast
qed


end
